theory Spec2Isabelle
  imports Main "HOL-Library.Sublist" "HOL-Library.AList"
begin

section \<open>The file store the installer works on\<close>

text \<open>
  \<^verbatim>\<open>installer.py\<close> works on the file system through \<^verbatim>\<open>os\<close>, \<^verbatim>\<open>shutil\<close>,
  \<^verbatim>\<open>pathlib\<close>, \<^verbatim>\<open>kernel32.CopyFileW\<close> and \<^verbatim>\<open>winKernel.moveFileEx\<close>. A path is the
  list of its components, so \<^verbatim>\<open>os.path.join(a, b)\<close> of a relative \<open>b\<close> is \<open>a @ b\<close>,
  \<^verbatim>\<open>os.path.dirname\<close> is \<open>butlast\<close> and "lies under" is \<open>prefix\<close>. The store holds the
  regular files with their content, the directories that exist, every call made to the
  platform in the order it was made, and the paths registered for deletion at the next
  restart.

  Whether a call to the platform fails (a lock, a scanner, any other I/O error) is decided
  by the environment: \<open>env c k\<close> says that call \<open>c\<close> fails when it has been made \<open>k\<close>
  times before. A call also fails when the file it works on is missing. A failed call has
  no effect on the store except its entry in the trace.
\<close>

type_synonym path = "string list"
type_synonym content = string

datatype syscall =
    OsReplace path path
  | OsRemove path
  | OsRmdir path
  | ShRmtree path
  | ShCopyfile path path
  | CopyFileW path path
  | MoveFileEx path
  | TimeSleep nat

type_synonym env = "syscall \<Rightarrow> nat \<Rightarrow> bool"

record world =
  files :: "(path \<times> content) list"
  dirs :: "path list"
  trace :: "syscall list"
  rebootDeletes :: "path list"

datatype error = RetriableFailure | OSError | RuntimeError

datatype outcome = Returned | Raised error

definition isfile :: "world \<Rightarrow> path \<Rightarrow> bool" where
  "isfile w p = (map_of (files w) p \<noteq> None)"

definition isdir :: "world \<Rightarrow> path \<Rightarrow> bool" where
  "isdir w p = (p \<in> set (dirs w))"

definition exists_path :: "world \<Rightarrow> path \<Rightarrow> bool" where
  "exists_path w p = (isfile w p \<or> isdir w p)"

text \<open>The call is entered in the trace; the result says whether the environment fails it.\<close>

definition attempt :: "env \<Rightarrow> syscall \<Rightarrow> world \<Rightarrow> bool \<times> world" where
  "attempt e c w = (e c (count_list (trace w) c), w\<lparr>trace := trace w @ [c]\<rparr>)"

text \<open>\<^verbatim>\<open>os.remove(p)\<close>: True when the file was deleted, False for \<^verbatim>\<open>OSError\<close>.\<close>

definition os_remove :: "env \<Rightarrow> path \<Rightarrow> world \<Rightarrow> bool \<times> world" where
  "os_remove e p w =
     (let (blocked, w1) = attempt e (OsRemove p) w in
      if blocked \<or> \<not> isfile w1 p then (False, w1)
      else (True, w1\<lparr>files := AList.delete p (files w1)\<rparr>))"

text \<open>
  \<^verbatim>\<open>os.replace(src, dst)\<close>: the file is moved and an existing \<open>dst\<close> is overwritten.
  Only a regular file moves. The one place where the installer passes a directory is the
  rollback of a group delete, which walks the mirrored directories of the scratch
  directory too: their targets in the install directory exist, and Windows refuses to
  rename a directory onto an existing one.
\<close>

definition os_replace :: "env \<Rightarrow> path \<Rightarrow> path \<Rightarrow> world \<Rightarrow> bool \<times> world" where
  "os_replace e src dst w =
     (let (blocked, w1) = attempt e (OsReplace src dst) w in
      case map_of (files w1) src of
        None \<Rightarrow> (False, w1)
      | Some c \<Rightarrow>
          if blocked then (False, w1)
          else (True, w1\<lparr>files := AList.update dst c (AList.delete src (files w1))\<rparr>))"

text \<open>\<^verbatim>\<open>shutil.copyfile(src, dst)\<close>.\<close>

definition sh_copyfile :: "env \<Rightarrow> path \<Rightarrow> path \<Rightarrow> world \<Rightarrow> bool \<times> world" where
  "sh_copyfile e src dst w =
     (let (blocked, w1) = attempt e (ShCopyfile src dst) w in
      case map_of (files w1) src of
        None \<Rightarrow> (False, w1)
      | Some c \<Rightarrow>
          if blocked \<or> src = dst then (False, w1)
          else (True, w1\<lparr>files := AList.update dst c (files w1)\<rparr>))"

text \<open>
  \<^verbatim>\<open>kernel32.CopyFileW(src, dst, False)\<close>: an existing destination is overwritten;
  the result is True for a non-zero return value.
\<close>

definition copyFileW :: "env \<Rightarrow> path \<Rightarrow> path \<Rightarrow> world \<Rightarrow> bool \<times> world" where
  "copyFileW e src dst w =
     (let (blocked, w1) = attempt e (CopyFileW src dst) w in
      case map_of (files w1) src of
        None \<Rightarrow> (False, w1)
      | Some c \<Rightarrow>
          if blocked then (False, w1)
          else (True, w1\<lparr>files := AList.update dst c (files w1)\<rparr>))"

text \<open>
  \<^verbatim>\<open>winKernel.moveFileEx(p, None, MOVEFILE_DELAY_UNTIL_REBOOT)\<close>: the file stays where
  it is and is registered for deletion at the next restart. \<^verbatim>\<open>winKernel\<close> is not part of
  the sources at hand; that it raises \<^verbatim>\<open>WindowsError\<close> on failure is what the handler in
  \<^verbatim>\<open>tryRemoveFile\<close> catches. False stands for the raise.
\<close>

definition moveFileEx :: "env \<Rightarrow> path \<Rightarrow> world \<Rightarrow> bool \<times> world" where
  "moveFileEx e p w =
     (let (blocked, w1) = attempt e (MoveFileEx p) w in
      if blocked \<or> \<not> exists_path w1 p then (False, w1)
      else (True, w1\<lparr>rebootDeletes := rebootDeletes w1 @ [p]\<rparr>))"

text \<open>\<^verbatim>\<open>shutil.rmtree(d)\<close>: the directory and everything under it is removed.\<close>

definition sh_rmtree :: "env \<Rightarrow> path \<Rightarrow> world \<Rightarrow> bool \<times> world" where
  "sh_rmtree e d w =
     (let (blocked, w1) = attempt e (ShRmtree d) w in
      if blocked \<or> \<not> isdir w1 d then (False, w1)
      else (True, w1\<lparr>files := filter (\<lambda>(p, c). \<not> prefix d p) (files w1),
                       dirs := filter (\<lambda>p. \<not> prefix d p) (dirs w1)\<rparr>))"

text \<open>\<^verbatim>\<open>os.rmdir(d)\<close>: only an empty directory is removed.\<close>

definition os_rmdir :: "env \<Rightarrow> path \<Rightarrow> world \<Rightarrow> bool \<times> world" where
  "os_rmdir e d w =
     (let (blocked, w1) = attempt e (OsRmdir d) w in
      if blocked \<or> \<not> isdir w1 d
         \<or> (\<exists>p \<in> set (map fst (files w1) @ dirs w1). strict_prefix d p) then (False, w1)
      else (True, w1\<lparr>dirs := removeAll d (dirs w1)\<rparr>))"

text \<open>\<^verbatim>\<open>time.sleep(interval)\<close>, the interval in milliseconds.\<close>

definition time_sleep :: "nat \<Rightarrow> world \<Rightarrow> world" where
  "time_sleep iv w = w\<lparr>trace := trace w @ [TimeSleep iv]\<rparr>"

subsection \<open>Fresh names\<close>

text \<open>
  Modelled from the spec: \<^verbatim>\<open>utils.tempFile._createEmptyTempFileForDeletingFile\<close> and
  \<^verbatim>\<open>tempfile.mkdtemp\<close> are not part of the sources at hand. The spec has the first
  create "a uniquely-named empty placeholder in the same directory" and the second "a
  private scratch directory". The name chosen here is \<open>tmp\<close> followed by more underscores
  than all names of the store have characters, so no file or directory of the store has
  it as a component.
\<close>

definition pathSize :: "path \<Rightarrow> nat" where
  "pathSize p = length (concat p)"

definition freshName :: "world \<Rightarrow> string" where
  "freshName w =
     ''tmp'' @ replicate (Suc (sum_list (map pathSize (map fst (files w) @ dirs w)))) (CHR ''_'')"

definition createEmptyTempFileForDeletingFile :: "path \<Rightarrow> world \<Rightarrow> path \<times> world" where
  "createEmptyTempFileForDeletingFile dir w =
     (let t = dir @ [freshName w] in (t, w\<lparr>files := AList.update t [] (files w)\<rparr>))"

text \<open>\<open>tmpRoot\<close> is the system's directory for temporary files.\<close>

definition mkdtemp :: "path \<Rightarrow> world \<Rightarrow> path \<times> world" where
  "mkdtemp tmpRoot w =
     (let d = tmpRoot @ [freshName w] in (d, w\<lparr>dirs := dirs w @ [d]\<rparr>))"

text \<open>\<^verbatim>\<open>pathlib.Path(d).mkdir(parents=True, exist_ok=True)\<close>.\<close>

definition mkdir_parents :: "path \<Rightarrow> world \<Rightarrow> world" where
  "mkdir_parents d w = w\<lparr>dirs := dirs w @ filter (\<lambda>p. p \<notin> set (dirs w)) (prefixes d)\<rparr>"

section \<open>Removing one file that may be locked\<close>

text \<open>
  The loop \<^verbatim>\<open>for count in range(numRetries)\<close> of \<^verbatim>\<open>tryRemoveFile\<close>: True when an
  attempt deleted the placeholder (the function returns), False when the loop ran out.
  The sleep follows every failed attempt.
\<close>

fun removeRetries :: "env \<Rightarrow> path \<Rightarrow> nat \<Rightarrow> nat \<Rightarrow> world \<Rightarrow> bool \<times> world" where
  "removeRetries e tempPath iv 0 w = (False, w)"
| "removeRetries e tempPath iv (Suc n) w =
     (let (ok, w1) = (if isdir w tempPath then sh_rmtree e tempPath w
                      else os_remove e tempPath w) in
      if ok then (True, w1)
      else removeRetries e tempPath iv n (time_sleep iv w1))"

definition tryRemoveFile :: "env \<Rightarrow> path \<Rightarrow> int \<Rightarrow> nat \<Rightarrow> bool \<Rightarrow> world \<Rightarrow> outcome \<times> world" where
  "tryRemoveFile e path numRetries retryInterval rebootOK w =
     (let dirPath = butlast path;
          (tempPath, w1) = createEmptyTempFileForDeletingFile dirPath w;
          (renamed, w2) = os_replace e path tempPath w1 in
      if \<not> renamed then (Raised RetriableFailure, w2)
      else
        let (deleted, w3) = removeRetries e tempPath retryInterval (nat numRetries) w2 in
        if deleted then (Returned, w3)
        else
          let (marked, w4) = (if rebootOK then moveFileEx e tempPath w3 else (False, w3)) in
          if rebootOK \<and> marked then (Returned, w4)
          else
            let (restored, w5) = os_replace e tempPath path w4 in
            (Raised RetriableFailure, w5))"

section \<open>Copying one file over a destination that may be locked\<close>

text \<open>
  \<^verbatim>\<open>tryCopyFile\<close> puts the long-path qualifier in front of both paths; the qualified path
  names the same file, so the paths stay as they are here.
\<close>

definition tryCopyFile :: "env \<Rightarrow> path \<Rightarrow> path \<Rightarrow> world \<Rightarrow> outcome \<times> world" where
  "tryCopyFile e sourceFilePath destFilePath w =
     (let (copied, w1) = copyFileW e sourceFilePath destFilePath w in
      if copied then (Returned, w1)
      else if \<not> exists_path w1 destFilePath then (Raised OSError, w1)
      else
        let (tempPath, w2) = createEmptyTempFileForDeletingFile (butlast destFilePath) w1;
            (renamed, w3) = os_replace e destFilePath tempPath w2 in
        if \<not> renamed then (Raised RetriableFailure, w3)
        else
          let (marked, w4) = moveFileEx e tempPath w3 in
          if \<not> marked then (Raised OSError, w4)
          else
            let (copied2, w5) = copyFileW e sourceFilePath destFilePath w4 in
            if copied2 then (Returned, w5) else (Raised OSError, w5))"

section \<open>Deleting a group of files or none\<close>

text \<open>
  \<^verbatim>\<open>pathlib.Path(tempDir).rglob("*")\<close>: every directory and file below \<open>tempDir\<close>.
\<close>

definition rglob :: "world \<Rightarrow> path \<Rightarrow> path list" where
  "rglob w tempDir = filter (strict_prefix tempDir) (dirs w @ map fst (files w))"

text \<open>One round of the loop of \<^verbatim>\<open>_revertGroupDelete\<close>; a failed rename is logged only.\<close>

definition revertOne :: "env \<Rightarrow> path \<Rightarrow> path \<Rightarrow> path \<Rightarrow> world \<Rightarrow> world" where
  "revertOne e tempDir installDir tempFile w =
     (let relativePath = drop (length tempDir) tempFile;
          originalPath = installDir @ relativePath in
      snd (os_replace e tempFile originalPath w))"

definition revertGroupDelete :: "env \<Rightarrow> path \<Rightarrow> path \<Rightarrow> world \<Rightarrow> world" where
  "revertGroupDelete e tempDir installDir w =
     fold (revertOne e tempDir installDir) (rglob w tempDir) w"

text \<open>
  The loop \<^verbatim>\<open>for count in range(1, numTries + 1)\<close>: the sleep comes before every attempt
  but the first; True is the \<^verbatim>\<open>break\<close>, False the \<^verbatim>\<open>else\<close> of the loop.
\<close>

fun deleteTries :: "env \<Rightarrow> path \<Rightarrow> nat \<Rightarrow> bool \<Rightarrow> nat \<Rightarrow> world \<Rightarrow> bool \<times> world" where
  "deleteTries e originalPath iv first 0 w = (False, w)"
| "deleteTries e originalPath iv first (Suc n) w =
     (let w0 = (if first then w else time_sleep iv w);
          (ok, w1) = os_remove e originalPath w0 in
      if ok then (True, w1)
      else deleteTries e originalPath iv False n w1)"

text \<open>The body of the \<^verbatim>\<open>try\<close>: the loop over the relative paths of the group.\<close>

fun deleteGroupLoop ::
  "env \<Rightarrow> path \<Rightarrow> path \<Rightarrow> int \<Rightarrow> nat \<Rightarrow> path list \<Rightarrow> world \<Rightarrow> outcome \<times> world" where
  "deleteGroupLoop e tempDir installDir numTries iv [] w = (Returned, w)"
| "deleteGroupLoop e tempDir installDir numTries iv (filepath # rest) w =
     (let originalPath = installDir @ filepath in
      if \<not> exists_path w originalPath
      then deleteGroupLoop e tempDir installDir numTries iv rest w
      else
        let tempPath = tempDir @ filepath;
            w1 = mkdir_parents (butlast tempPath) w;
            (staged, w2) = sh_copyfile e originalPath tempPath w1 in
        if \<not> staged then (Raised OSError, w2)
        else
          let (deleted, w3) = deleteTries e originalPath iv True (nat numTries) w2 in
          if deleted then deleteGroupLoop e tempDir installDir numTries iv rest w3
          else
            let (unstaged, w4) = os_remove e tempPath w3 in
            if \<not> unstaged then (Raised OSError, w4)
            else (Raised RetriableFailure, revertGroupDelete e tempDir installDir w4))"

text \<open>
  The \<^verbatim>\<open>finally\<close> removes the scratch directory whatever the outcome; a failure to
  remove it is ignored.
\<close>

definition deleteFileGroupOrFail ::
  "env \<Rightarrow> path \<Rightarrow> path \<Rightarrow> path list \<Rightarrow> int \<Rightarrow> nat \<Rightarrow> world \<Rightarrow> outcome \<times> world" where
  "deleteFileGroupOrFail e tmpRoot installDir relativeFilepaths numTries retryWaitInterval w =
     (let (tempDir, w1) = mkdtemp tmpRoot w;
          (res, w2) = deleteGroupLoop e tempDir installDir numTries retryWaitInterval
                        relativeFilepaths w1;
          (removed, w3) = sh_rmtree e tempDir w2 in
      (res, w3))"

text \<open>The scratch directory of a call that starts in \<open>w\<close>.\<close>

definition scratchDir :: "path \<Rightarrow> world \<Rightarrow> path" where
  "scratchDir tmpRoot w = fst (mkdtemp tmpRoot w)"

section \<open>Walking directory trees\<close>

text \<open>
  \<^verbatim>\<open>str.lower\<close>, on the letters A to Z; every other character stays as it is.
\<close>

definition lower_char :: "char \<Rightarrow> char" where
  "lower_char c =
     (case map_of (zip ''ABCDEFGHIJKLMNOPQRSTUVWXYZ'' ''abcdefghijklmnopqrstuvwxyz'') c of
        Some l \<Rightarrow> l
      | None \<Rightarrow> c)"

definition lower :: "string \<Rightarrow> string" where
  "lower s = map lower_char s"

text \<open>The names of the directories and of the files directly in directory \<open>d\<close>.\<close>

definition listdir :: "world \<Rightarrow> path \<Rightarrow> string list \<times> string list" where
  "listdir w d =
     (remdups (map last (filter (\<lambda>p. p \<noteq> [] \<and> butlast p = d) (dirs w))),
      remdups (map last (filter (\<lambda>p. p \<noteq> [] \<and> butlast p = d) (map fst (files w)))))"

definition deepest :: "world \<Rightarrow> nat" where
  "deepest w = fold max (map length (dirs w)) 0"

text \<open>
  \<^verbatim>\<open>os.walk(dir0, topdown)\<close> over the store \<open>w\<close>: one entry \<open>(directory, names of its
  directories, names of its files)\<close> for every directory below \<open>dir0\<close>, a directory before
  the directories in it when \<open>topdown\<close> holds and after them otherwise. A directory that
  does not exist yields nothing. The listing is read from \<open>w\<close>, the store as it is when
  the walk reaches the directory: the loops below change nothing in a directory that the
  walk has yet to list (the copy writes outside the tree it walks; the pruning works in
  directories already listed).
\<close>

function os_walk :: "world \<Rightarrow> bool \<Rightarrow> path \<Rightarrow> (path \<times> string list \<times> string list) list" where
  "os_walk w topdown dir0 =
     (if \<not> isdir w dir0 then []
      else
        let entry = (dir0, fst (listdir w dir0), snd (listdir w dir0));
            below = concat (map (\<lambda>s. os_walk w topdown (dir0 @ [s])) (fst (listdir w dir0)))
        in if topdown then entry # below else below @ [entry])"
  by pat_completeness auto
termination
proof (relation "measure (\<lambda>(w, topdown, dir0). Suc (deepest w) - length dir0)")
  show "wf (measure (\<lambda>(w, topdown, dir0). Suc (deepest w) - length dir0))" by simp
next
  fix w :: world and topdown :: bool and dir0 :: path and s
  assume "s \<in> set (fst (listdir w dir0))"
  then have "dir0 @ [s] \<in> set (dirs w)" by (auto simp: listdir_def)
  then have "length (dir0 @ [s]) \<in> set (map length (dirs w))"
    by (metis imageI set_map)
  moreover have ge: "x \<in> set xs \<Longrightarrow> x \<le> fold max xs a" for x a :: nat and xs
  proof (induction xs arbitrary: a)
    case Nil
    then show ?case by simp
  next
    case (Cons y ys)
    have mono: "b \<le> fold max zs b" for b :: nat and zs
      by (induction zs arbitrary: b) (auto intro: order_trans [OF max.cobounded2])
    show ?case
    proof (cases "x = y")
      case True
      then show ?thesis using mono [of "max y a" ys] by simp
    next
      case False
      then show ?thesis using Cons by simp
    qed
  qed
  ultimately have "length (dir0 @ [s]) \<le> deepest w"
    unfolding deepest_def by blast
  then show "((w, topdown, dir0 @ [s]), (w, topdown, dir0))
      \<in> measure (\<lambda>(w, topdown, dir0). Suc (deepest w) - length dir0)"
    by simp
qed

declare os_walk.simps [simp del]

text \<open>\<^verbatim>\<open>os.path.relpath(p, start)\<close> for a path \<open>p\<close> below \<open>start\<close>.\<close>

definition relpath :: "path \<Rightarrow> path \<Rightarrow> path" where
  "relpath p start = drop (length start) p"

section \<open>Copying the program files\<close>

text \<open>
  The walk of \<^verbatim>\<open>copyProgramFiles\<close>: \<^verbatim>\<open>os.walk(sourcePath)\<close>, top down. In the first round
  of the loop (\<^verbatim>\<open>detectUserConfig\<close>), and in no later one, the directories named
  \<open>userconfig\<close> or \<open>systemconfig\<close> in any case are taken out of the list of directories
  to walk into.
\<close>

definition copyWalk :: "world \<Rightarrow> path \<Rightarrow> (path \<times> string list \<times> string list) list" where
  "copyWalk w sourcePath =
     (if \<not> isdir w sourcePath then []
      else
        let subDirs = filter (\<lambda>x. lower x \<notin> set [''userconfig'', ''systemconfig''])
                        (fst (listdir w sourcePath))
        in (sourcePath, subDirs, snd (listdir w sourcePath))
           # concat (map (\<lambda>s. os_walk w True (sourcePath @ [s])) subDirs))"

text \<open>The loop \<^verbatim>\<open>for f in files\<close>; an exception of \<^verbatim>\<open>tryCopyFile\<close> ends the whole copy.\<close>

fun copyFilesIn ::
  "env \<Rightarrow> path \<Rightarrow> path \<Rightarrow> path \<Rightarrow> string list \<Rightarrow> world \<Rightarrow> outcome \<times> world" where
  "copyFilesIn e sourcePath destPath curSourceDir [] w = (Returned, w)"
| "copyFilesIn e sourcePath destPath curSourceDir (f # fs) w =
     (if sourcePath = curSourceDir \<and> lower f = ''nvda.exe''
      then copyFilesIn e sourcePath destPath curSourceDir fs w
      else
        let sourceFilePath = curSourceDir @ [f];
            destFilePath = destPath @ relpath sourceFilePath sourcePath in
        case tryCopyFile e sourceFilePath destFilePath w of
          (Returned, w1) \<Rightarrow> copyFilesIn e sourcePath destPath curSourceDir fs w1
        | (Raised err, w1) \<Rightarrow> (Raised err, w1))"

text \<open>The loop over the entries of the walk.\<close>

fun copyDirs ::
  "env \<Rightarrow> path \<Rightarrow> path \<Rightarrow> (path \<times> string list \<times> string list) list \<Rightarrow> world
   \<Rightarrow> outcome \<times> world" where
  "copyDirs e sourcePath destPath [] w = (Returned, w)"
| "copyDirs e sourcePath destPath ((curSourceDir, subDirs, fileNames) # rest) w =
     (let curDestDir = destPath @ relpath curSourceDir sourcePath;
          w1 = (if \<not> isdir w curDestDir then mkdir_parents curDestDir w else w) in
      case copyFilesIn e sourcePath destPath curSourceDir fileNames w1 of
        (Returned, w2) \<Rightarrow> copyDirs e sourcePath destPath rest w2
      | (Raised err, w2) \<Rightarrow> (Raised err, w2))"

text \<open>\<open>sourcePath\<close> is \<^verbatim>\<open>globalVars.appDir\<close>.\<close>

definition copyProgramFiles :: "env \<Rightarrow> path \<Rightarrow> path \<Rightarrow> world \<Rightarrow> outcome \<times> world" where
  "copyProgramFiles e sourcePath destPath w =
     copyDirs e sourcePath destPath (copyWalk w sourcePath) w"

text \<open>
  The lines of \<^verbatim>\<open>install\<close> that follow the copy: the first of the two executables that
  is there is copied to \<open>nvda.exe\<close>; \<^verbatim>\<open>RuntimeError\<close> when neither is.
\<close>

fun pickNvdaExe :: "env \<Rightarrow> path \<Rightarrow> string list \<Rightarrow> world \<Rightarrow> outcome \<times> world" where
  "pickNvdaExe e installDir [] w = (Raised RuntimeError, w)"
| "pickNvdaExe e installDir (f # fs) w =
     (if isfile w (installDir @ [f])
      then tryCopyFile e (installDir @ [f]) (installDir @ [''nvda.exe'']) w
      else pickNvdaExe e installDir fs w)"

definition installProgramFiles :: "env \<Rightarrow> path \<Rightarrow> path \<Rightarrow> world \<Rightarrow> outcome \<times> world" where
  "installProgramFiles e sourcePath installDir w =
     (case copyProgramFiles e sourcePath installDir w of
        (Returned, w1) \<Rightarrow>
          pickNvdaExe e installDir [''nvda_UIAccess.exe'', ''nvda_noUIAccess.exe''] w1
      | (Raised err, w1) \<Rightarrow> (Raised err, w1))"

section \<open>Removing the libraries of older versions\<close>

text \<open>
  One round of the loop over the walk in \<^verbatim>\<open>removeOldLibFiles\<close>. A failure to remove a
  directory or a file is logged and the loop goes on.
\<close>

definition removeLibSubdir :: "env \<Rightarrow> path \<Rightarrow> path \<Rightarrow> string \<Rightarrow> world \<Rightarrow> world" where
  "removeLibSubdir e currentLibPath parent d w =
     (let path = parent @ [d] in
      if path \<noteq> currentLibPath then snd (os_rmdir e path w) else w)"

definition removeLibFile :: "env \<Rightarrow> bool \<Rightarrow> path \<Rightarrow> string \<Rightarrow> world \<Rightarrow> world" where
  "removeLibFile e rebootOK parent f w = snd (tryRemoveFile e (parent @ [f]) 2 500 rebootOK w)"

definition removeLibEntry ::
  "env \<Rightarrow> path \<Rightarrow> bool \<Rightarrow> path \<times> string list \<times> string list \<Rightarrow> world \<Rightarrow> world" where
  "removeLibEntry e currentLibPath rebootOK entry w =
     (case entry of (parent, subdirs, fileNames) \<Rightarrow>
        if parent = currentLibPath then w
        else fold (removeLibFile e rebootOK parent) fileNames
               (fold (removeLibSubdir e currentLibPath parent) subdirs w))"

text \<open>One round of the loop over \<open>lib\<close>, \<open>lib64\<close> and \<open>libArm64\<close>.\<close>

definition removeOldLibDir :: "env \<Rightarrow> path \<Rightarrow> string \<Rightarrow> bool \<Rightarrow> string \<Rightarrow> world \<Rightarrow> world" where
  "removeOldLibDir e destPath version rebootOK topDir w =
     (let currentLibPath = destPath @ [topDir, version] in
      fold (removeLibEntry e currentLibPath rebootOK) (os_walk w False (destPath @ [topDir])) w)"

text \<open>\<open>version\<close> is \<^verbatim>\<open>versionInfo.version\<close>.\<close>

definition removeOldLibFiles :: "env \<Rightarrow> path \<Rightarrow> string \<Rightarrow> bool \<Rightarrow> world \<Rightarrow> world" where
  "removeOldLibFiles e destPath version rebootOK w =
     fold (removeOldLibDir e destPath version rebootOK) [''lib'', ''lib64'', ''libArm64''] w"

section \<open>What a call did\<close>

text \<open>The calls of one kind that a run has made, read off the trace in order.\<close>

definition osRemoveCalls :: "world \<Rightarrow> path list" where
  "osRemoveCalls w = concat (map (\<lambda>c. case c of OsRemove p \<Rightarrow> [p] | _ \<Rightarrow> []) (trace w))"

definition moveFileExCalls :: "world \<Rightarrow> path list" where
  "moveFileExCalls w = concat (map (\<lambda>c. case c of MoveFileEx p \<Rightarrow> [p] | _ \<Rightarrow> []) (trace w))"

definition copyFileWCalls :: "world \<Rightarrow> (path \<times> path) list" where
  "copyFileWCalls w =
     concat (map (\<lambda>c. case c of CopyFileW s d \<Rightarrow> [(s, d)] | _ \<Rightarrow> []) (trace w))"

text \<open>How often call \<open>c\<close> has been made: the index of its next attempt.\<close>

definition made :: "world \<Rightarrow> syscall \<Rightarrow> nat" where
  "made w c = count_list (trace w) c"

text \<open>
  The store in the middle of a group delete that started from the files \<open>m0\<close>: the
  members \<open>S\<close> have been staged in the scratch directory \<open>D\<close> and deleted from the
  install directory \<open>I\<close>; everything else is as it was.
\<close>

definition stagedStore ::
  "path \<Rightarrow> path \<Rightarrow> (path \<rightharpoonup> content) \<Rightarrow> path set \<Rightarrow> (path \<rightharpoonup> content)" where
  "stagedStore D I m0 S p =
     (if prefix D p
      then (if drop (length D) p \<in> S then m0 (I @ drop (length D) p) else None)
      else if p \<in> (\<lambda>x. I @ x) ` S then None else m0 p)"

text \<open>
  The placeholder that \<^verbatim>\<open>tryRemoveFile\<close> renames \<open>path\<close> to when it starts in \<open>w\<close>.
\<close>

definition placeholder :: "path \<Rightarrow> world \<Rightarrow> path" where
  "placeholder path w = butlast path @ [freshName w]"

text \<open>
  What the environment does to the attempts at call \<open>c\<close> that come after \<open>w\<close>: the next
  one succeeds; the next two fail and the third succeeds; all fail.
\<close>

definition succeedsNext :: "env \<Rightarrow> world \<Rightarrow> syscall \<Rightarrow> bool" where
  "succeedsNext e w c = (\<not> e c (made w c))"

definition failsTwiceThenSucceeds :: "env \<Rightarrow> world \<Rightarrow> syscall \<Rightarrow> bool" where
  "failsTwiceThenSucceeds e w c =
     (e c (made w c) \<and> e c (Suc (made w c)) \<and> \<not> e c (Suc (Suc (made w c))))"

definition failsAlways :: "env \<Rightarrow> syscall \<Rightarrow> bool" where
  "failsAlways e c = (\<forall>k. e c k)"

text \<open>
  The copy as the specification words it (section 4.2), for comparison with
  \<open>tryCopyFile\<close>: when the first copy fails and the destination exists, the destination
  is removed by the single-file remover with the default retry policy (six attempts, half
  a second apart) and deferral allowed, and the copy is retried once.
\<close>

definition tryCopyFile_spec :: "env \<Rightarrow> path \<Rightarrow> path \<Rightarrow> world \<Rightarrow> outcome \<times> world" where
  "tryCopyFile_spec e source dest w =
     (let (copied, w1) = copyFileW e source dest w in
      if copied then (Returned, w1)
      else if \<not> exists_path w1 dest then (Raised OSError, w1)
      else
        case tryRemoveFile e dest 6 500 True w1 of
          (Raised err, w2) \<Rightarrow> (Raised err, w2)
        | (Returned, w2) \<Rightarrow>
            let (copied2, w3) = copyFileW e source dest w2 in
            if copied2 then (Returned, w3) else (Raised OSError, w3))"

text \<open>A name that starts like the names of placeholders.\<close>

definition isTmp :: "path \<Rightarrow> bool" where
  "isTmp q = (q \<noteq> [] \<and> take 3 (last q) = ''tmp'')"

text \<open>
  The directory \<open>c\<close> is kept from \<open>u\<close> to \<open>u'\<close>: every file directly in it is what it
  was, and the directory is still there if it was.
\<close>

definition keepsDir :: "path \<Rightarrow> world \<Rightarrow> world \<Rightarrow> bool" where
  "keepsDir c u u' =
     ((\<forall>f. map_of (files u') (c @ [f]) = map_of (files u) (c @ [f]))
      \<and> (isdir u c \<longrightarrow> isdir u' c))"

section \<open>Example stores and environments\<close>

text \<open>
  An install directory \<open>i\<close> with the files \<open>a\<close> and \<open>b\<close>, and the directory \<open>t\<close> for
  temporary files.
\<close>

definition exStore :: world where
  "exStore = \<lparr>files = [([''i'', ''a''], ''A''), ([''i'', ''b''], ''B'')],
              dirs = [[''i''], [''t'']], trace = [], rebootDeletes = []\<rparr>"

text \<open>No call fails.\<close>

definition envCalm :: env where
  "envCalm c k = False"

text \<open>The file \<open>b\<close> of the install directory can never be deleted.\<close>

definition envLockB :: env where
  "envLockB c k = (c = OsRemove [''i'', ''b''])"

text \<open>The same, and no file can be renamed.\<close>

definition envLockBNoRename :: env where
  "envLockBNoRename c k =
     (case c of OsRemove p \<Rightarrow> p = [''i'', ''b''] | OsReplace s d \<Rightarrow> True | _ \<Rightarrow> False)"

text \<open>The scratch directory cannot be removed.\<close>

definition envKeepScratch :: env where
  "envKeepScratch c k = (case c of ShRmtree d \<Rightarrow> True | _ \<Rightarrow> False)"

text \<open>Every deletion fails on its first two attempts and succeeds from the third on.\<close>

definition envFailTwice :: env where
  "envFailTwice c k = (case c of OsRemove p \<Rightarrow> k < 2 | _ \<Rightarrow> False)"

text \<open>No file can ever be deleted; everything else succeeds.\<close>

definition envNoDelete :: env where
  "envNoDelete c k = (case c of OsRemove p \<Rightarrow> True | _ \<Rightarrow> False)"

text \<open>No file can ever be deleted, now or at the next restart.\<close>

definition envNoDeleteNoDefer :: env where
  "envNoDeleteNoDefer c k = (case c of OsRemove p \<Rightarrow> True | MoveFileEx p \<Rightarrow> True | _ \<Rightarrow> False)"

text \<open>No file can be renamed.\<close>

definition envNoRename :: env where
  "envNoRename c k = (case c of OsReplace s d \<Rightarrow> True | _ \<Rightarrow> False)"

text \<open>The first copy of any file fails and the next ones succeed; no copy succeeds.\<close>

definition envFirstCopyFails :: env where
  "envFirstCopyFails c k = (case c of CopyFileW s d \<Rightarrow> k = 0 | _ \<Rightarrow> False)"

definition envNoCopy :: env where
  "envNoCopy c k = (case c of CopyFileW s d \<Rightarrow> True | _ \<Rightarrow> False)"

text \<open>
  A program directory \<open>s\<close> to copy from and an install directory \<open>d\<close> with an older
  \<open>nvda.exe\<close>.
\<close>

definition exCopy :: world where
  "exCopy = \<lparr>files = [([''s'', ''NVDA.exe''], ''X''), ([''s'', ''nvda_noUIAccess.exe''], ''N''),
                       ([''d'', ''nvda.exe''], ''OLD'')],
              dirs = [[''s''], [''d'']], trace = [], rebootDeletes = []\<rparr>"

text \<open>
  A program directory \<open>s\<close> with a \<open>userConfig\<close> at the top and another one below
  \<open>sub\<close>, and an empty install directory \<open>d\<close>.
\<close>

definition exNested :: world where
  "exNested = \<lparr>files = [([''s'', ''userConfig'', ''g''], ''G''),
                         ([''s'', ''sub'', ''userConfig'', ''f''], ''F'')],
                dirs = [[''s''], [''s'', ''userConfig''], [''s'', ''sub''],
                        [''s'', ''sub'', ''userConfig''], [''d'']],
                trace = [], rebootDeletes = []\<rparr>"

text \<open>
  An install directory \<open>d\<close> with the libraries of version \<open>1\<close> and of the current
  version \<open>2\<close>.
\<close>

definition exLib :: world where
  "exLib = \<lparr>files = [([''d'', ''lib'', ''1'', ''o''], ''O''), ([''d'', ''lib'', ''2'', ''c''], ''C'')],
             dirs = [[''d''], [''d'', ''lib''], [''d'', ''lib'', ''1''], [''d'', ''lib'', ''2'']],
             trace = [], rebootDeletes = []\<rparr>"

section \<open>Properties\<close>

subsection \<open>Fresh names are fresh\<close>

lemma pathSize_le_sum:
  "p \<in> set ps \<Longrightarrow> pathSize p \<le> sum_list (map pathSize ps)"
  by (induction ps) auto

lemma component_le_pathSize: "n \<in> set p \<Longrightarrow> length n \<le> pathSize p"
  unfolding pathSize_def by (induction p) auto

lemma freshName_not_component:
  assumes "p \<in> set (map fst (files w)) \<union> set (dirs w)"
  shows "freshName w \<notin> set p"
proof
  assume "freshName w \<in> set p"
  then have "length (freshName w) \<le> pathSize p" by (rule component_le_pathSize)
  also have "pathSize p \<le> sum_list (map pathSize (map fst (files w) @ dirs w))"
    using assms by (intro pathSize_le_sum) auto
  finally show False by (simp add: freshName_def)
qed

lemma fresh_file_absent: "map_of (files w) (d @ [freshName w]) = None"
proof (rule ccontr)
  assume "map_of (files w) (d @ [freshName w]) \<noteq> None"
  then have "d @ [freshName w] \<in> set (map fst (files w))"
    by (metis map_of_eq_None_iff set_map)
  then have "freshName w \<notin> set (d @ [freshName w])"
    by (intro freshName_not_component) simp
  then show False by simp
qed

lemma fresh_dir_absent: "d @ [freshName w] @ r \<notin> set (dirs w)"
proof
  assume "d @ [freshName w] @ r \<in> set (dirs w)"
  then have "freshName w \<notin> set (d @ [freshName w] @ r)"
    by (intro freshName_not_component) simp
  then show False by simp
qed

lemma fresh_file_absent_under: "map_of (files w) (d @ [freshName w] @ r) = None"
proof (rule ccontr)
  assume "map_of (files w) (d @ [freshName w] @ r) \<noteq> None"
  then have "d @ [freshName w] @ r \<in> set (map fst (files w))"
    by (metis map_of_eq_None_iff set_map)
  then have "freshName w \<notin> set (d @ [freshName w] @ r)"
    by (intro freshName_not_component) simp
  then show False by simp
qed

subsection \<open>The calls to the platform, unfolded\<close>

lemma os_remove_unfold:
  "os_remove e p w =
     (if e (OsRemove p) (made w (OsRemove p)) \<or> map_of (files w) p = None
      then (False, w\<lparr>trace := trace w @ [OsRemove p]\<rparr>)
      else (True, w\<lparr>trace := trace w @ [OsRemove p], files := AList.delete p (files w)\<rparr>))"
  by (simp add: os_remove_def attempt_def isfile_def made_def)

lemma os_replace_unfold:
  "os_replace e s d w =
     (case map_of (files w) s of
        None \<Rightarrow> (False, w\<lparr>trace := trace w @ [OsReplace s d]\<rparr>)
      | Some c \<Rightarrow>
          if e (OsReplace s d) (made w (OsReplace s d))
          then (False, w\<lparr>trace := trace w @ [OsReplace s d]\<rparr>)
          else (True, w\<lparr>trace := trace w @ [OsReplace s d],
                         files := AList.update d c (AList.delete s (files w))\<rparr>))"
  by (simp add: os_replace_def attempt_def made_def split: option.splits)

lemma moveFileEx_unfold:
  "moveFileEx e p w =
     (if e (MoveFileEx p) (made w (MoveFileEx p)) \<or> \<not> exists_path w p
      then (False, w\<lparr>trace := trace w @ [MoveFileEx p]\<rparr>)
      else (True, w\<lparr>trace := trace w @ [MoveFileEx p],
                     rebootDeletes := rebootDeletes w @ [p]\<rparr>))"
  by (simp add: moveFileEx_def attempt_def made_def exists_path_def isfile_def isdir_def)

lemma copyFileW_unfold:
  "copyFileW e s d w =
     (case map_of (files w) s of
        None \<Rightarrow> (False, w\<lparr>trace := trace w @ [CopyFileW s d]\<rparr>)
      | Some c \<Rightarrow>
          if e (CopyFileW s d) (made w (CopyFileW s d))
          then (False, w\<lparr>trace := trace w @ [CopyFileW s d]\<rparr>)
          else (True, w\<lparr>trace := trace w @ [CopyFileW s d],
                         files := AList.update d c (files w)\<rparr>))"
  by (simp add: copyFileW_def attempt_def made_def split: option.splits)

lemma sh_copyfile_unfold:
  "sh_copyfile e s d w =
     (case map_of (files w) s of
        None \<Rightarrow> (False, w\<lparr>trace := trace w @ [ShCopyfile s d]\<rparr>)
      | Some c \<Rightarrow>
          if e (ShCopyfile s d) (made w (ShCopyfile s d)) \<or> s = d
          then (False, w\<lparr>trace := trace w @ [ShCopyfile s d]\<rparr>)
          else (True, w\<lparr>trace := trace w @ [ShCopyfile s d],
                         files := AList.update d c (files w)\<rparr>))"
  by (simp add: sh_copyfile_def attempt_def made_def split: option.splits)

lemma sh_rmtree_unfold:
  "sh_rmtree e d w =
     (if e (ShRmtree d) (made w (ShRmtree d)) \<or> d \<notin> set (dirs w)
      then (False, w\<lparr>trace := trace w @ [ShRmtree d]\<rparr>)
      else (True, w\<lparr>trace := trace w @ [ShRmtree d],
                     files := filter (\<lambda>(p, c). \<not> prefix d p) (files w),
                     dirs := filter (\<lambda>p. \<not> prefix d p) (dirs w)\<rparr>))"
  by (simp add: sh_rmtree_def attempt_def made_def isdir_def)

lemma removeRetries_all_fail:
  "\<forall>k. e (OsRemove t) k \<Longrightarrow> t \<notin> set (dirs w) \<Longrightarrow>
   removeRetries e t iv n w =
     (False, w\<lparr>trace := trace w @ concat (replicate n [OsRemove t, TimeSleep iv])\<rparr>)"
proof (induction n arbitrary: w)
  case 0
  then show ?case by simp
next
  case (Suc n)
  let ?w1 = "time_sleep iv (w\<lparr>trace := trace w @ [OsRemove t]\<rparr>)"
  have step: "removeRetries e t iv (Suc n) w = removeRetries e t iv n ?w1"
    using Suc.prems by (simp add: isdir_def os_remove_unfold)
  have "t \<notin> set (dirs ?w1)" using Suc.prems by (simp add: time_sleep_def)
  from Suc.IH [OF Suc.prems(1) this] show ?case
    unfolding step by (simp add: time_sleep_def)
qed

lemma made_files [simp]: "made (w\<lparr>files := f\<rparr>) = made w"
  by (simp add: made_def fun_eq_iff)

lemma made_dirs [simp]: "made (w\<lparr>dirs := f\<rparr>) = made w"
  by (simp add: made_def fun_eq_iff)

lemma made_trace_snoc:
  "made (w\<lparr>trace := trace w @ [c']\<rparr>) c = (if c' = c then Suc (made w c) else made w c)"
  by (simp add: made_def)

lemma made_trace_upd:
  "made (w\<lparr>trace := tr\<rparr>) c = count_list tr c"
  by (simp add: made_def)


lemma time_sleep_fields [simp]:
  "files (time_sleep iv w) = files w" "dirs (time_sleep iv w) = dirs w"
  "rebootDeletes (time_sleep iv w) = rebootDeletes w"
  by (simp_all add: time_sleep_def)

lemma os_remove_effect:
  "os_remove e p u = (ok, u') \<Longrightarrow>
     dirs u' = dirs u \<and>
     map_of (files u') = (if ok then (map_of (files u))(p := None) else map_of (files u))"
  by (auto simp: os_remove_unfold delete_conv' split: if_splits)

lemma deleteTries_effect:
  "deleteTries e p iv first n u = (ok, u') \<Longrightarrow>
     dirs u' = dirs u \<and>
     map_of (files u') = (if ok then (map_of (files u))(p := None) else map_of (files u))"
proof (induction n arbitrary: first u)
  case 0
  then show ?case by auto
next
  case (Suc n)
  let ?u0 = "if first then u else time_sleep iv u"
  obtain ok1 u1 where r1: "os_remove e p ?u0 = (ok1, u1)" by force
  have e1: "dirs u1 = dirs u"
    "map_of (files u1) = (if ok1 then (map_of (files u))(p := None) else map_of (files u))"
    using os_remove_effect [OF r1] by (auto split: if_splits)
  show ?case
  proof (cases ok1)
    case True
    then have "ok = True" "u' = u1" using Suc.prems r1 by (auto simp: Let_def)
    then show ?thesis using e1 True by simp
  next
    case False
    then have "deleteTries e p iv False n u1 = (ok, u')"
      using Suc.prems r1 by (auto simp: Let_def)
    from Suc.IH [OF this] show ?thesis using e1 False by simp
  qed
qed

lemma deleteTries_blocked:
  "\<forall>k. e (OsRemove p) k \<Longrightarrow> fst (deleteTries e p iv first n u) = False"
  by (induction n arbitrary: first u) (simp_all add: os_remove_unfold Let_def)

lemma mkdir_parents_fields [simp]:
  "files (mkdir_parents d w) = files w" "trace (mkdir_parents d w) = trace w"
  "rebootDeletes (mkdir_parents d w) = rebootDeletes w"
  "set (dirs (mkdir_parents d w)) = set (dirs w) \<union> set (prefixes d)"
  by (auto simp: mkdir_parents_def)

lemma under_both:
  assumes "\<forall>x y. I @ x \<noteq> D @ y" shows "\<not> prefix (I @ x) (D @ y)"
proof
  assume "prefix (I @ x) (D @ y)"
  then have "prefix I (D @ y)" by (metis append_prefixD)
  moreover have "prefix D (D @ y)" by simp
  ultimately have "prefix I D \<or> prefix D I" by (metis prefix_same_cases)
  then show False using assms by (auto simp: prefix_def)
qed

subsection \<open>Rolling a group delete back\<close>

lemma map_of_filter_key:
  "map_of (filter (\<lambda>(p, c). Q p) xs) k = (if Q k then map_of xs k else None)"
  by (induction xs) auto

lemma revertOne_files:
  assumes "\<forall>a b k. \<not> e (OsReplace a b) k"
  shows "map_of (files (revertOne e D I t u)) =
     (case map_of (files u) t of
        None \<Rightarrow> map_of (files u)
      | Some c \<Rightarrow> ((map_of (files u))(t := None))(I @ drop (length D) t \<mapsto> c))"
  using assms
  by (auto simp: revertOne_def os_replace_unfold Let_def update_conv' delete_conv'
      split: option.splits)

lemma revert_fold_files:
  assumes env: "\<forall>a b k. \<not> e (OsReplace a b) k"
    and inc: "\<forall>x y. I @ x \<noteq> D @ y"
  shows "\<forall>x. D @ x \<in> set L \<longrightarrow> x \<noteq> [] \<Longrightarrow> \<forall>t \<in> set L. prefix D t \<Longrightarrow>
    map_of (files (fold (revertOne e D I) L u)) p =
      (if p \<in> set L then None
       else if \<exists>x. p = I @ x \<and> D @ x \<in> set L \<and> map_of (files u) (D @ x) \<noteq> None
            then map_of (files u) (D @ drop (length I) p)
       else map_of (files u) p)"
proof (induction L arbitrary: u)
  case Nil
  then show ?case by simp
next
  case (Cons t L)
  obtain r where r: "t = D @ r" using Cons.prems(2) by (auto simp: prefix_def)
  have inc1: "I @ x \<noteq> D @ y" for x y using inc by simp
  have inc2: "D @ y \<noteq> I @ x" for x y using inc by metis
  have inc3: "D \<noteq> I" using inc1 [of "[]" "[]"] by auto
  let ?u1 = "revertOne e D I (D @ r) u"
  have F1: "map_of (files ?u1) =
     (case map_of (files u) (D @ r) of
        None \<Rightarrow> map_of (files u)
      | Some c \<Rightarrow> ((map_of (files u))(D @ r := None))(I @ r \<mapsto> c))"
    using revertOne_files [OF env, of D I "D @ r" u] by (simp cong: option.case_cong)
  have underD: "map_of (files ?u1) (D @ x) = (if x = r then None else map_of (files u) (D @ x))" for x
    using inc3 by (auto simp: F1 inc1 inc2 split: option.splits)
  have underI: "map_of (files ?u1) (I @ x) =
      (if x = r \<and> map_of (files u) (D @ r) \<noteq> None then map_of (files u) (D @ r)
       else map_of (files u) (I @ x))" for x
    using inc3 by (auto simp: F1 inc1 inc2 split: option.splits)
  have other: "map_of (files ?u1) q = map_of (files u) q" if "\<not> prefix D q" "\<not> prefix I q" for q
    using that by (auto simp: F1 prefix_def split: option.splits)
  have IH: "map_of (files (fold (revertOne e D I) L ?u1)) p =
      (if p \<in> set L then None
       else if \<exists>x. p = I @ x \<and> D @ x \<in> set L \<and> map_of (files ?u1) (D @ x) \<noteq> None
            then map_of (files ?u1) (D @ drop (length I) p)
       else map_of (files ?u1) p)"
    using Cons.prems by (intro Cons.IH) auto
  consider (d) x where "p = D @ x" | (i) x where "p = I @ x" | (o) "\<not> prefix D p" "\<not> prefix I p"
    by (auto simp: prefix_def)
  then show ?case
  proof cases
    case d
    have noI: "\<And>y. D @ x \<noteq> I @ y" using inc by metis
    show ?thesis
      unfolding r fold_simps IH
      by (simp add: d inc1 inc2 underD)
  next
    case i
    have noD: "\<And>y. I @ x \<noteq> D @ y" using inc by metis
    have notin: "I @ x \<notin> set L" "I @ x \<noteq> t"
      using Cons.prems(2) noD by (auto simp: prefix_def r)
    show ?thesis
      unfolding r fold_simps IH
      using notin by (auto simp: i underD underI r inc1 inc2)
  next
    case o
    have "p \<notin> set (t # L)" using o(1) Cons.prems(2) by auto
    moreover have "\<And>x. p \<noteq> I @ x" using o(2) by (auto simp: prefix_def)
    ultimately show ?thesis
      unfolding r fold_simps IH using other [OF o] by (simp add: r)
  qed
qed

lemma stagedStore_simps:
  assumes inc: "\<forall>x y. I @ x \<noteq> D @ y"
  shows "stagedStore D I m0 S (D @ x) = (if x \<in> S then m0 (I @ x) else None)"
    and "stagedStore D I m0 S (I @ x) = (if x \<in> S then None else m0 (I @ x))"
    and "\<not> prefix D p \<Longrightarrow> \<not> prefix I p \<Longrightarrow> stagedStore D I m0 S p = m0 p"
proof -
  show "stagedStore D I m0 S (D @ x) = (if x \<in> S then m0 (I @ x) else None)"
    by (simp add: stagedStore_def)
  have "\<not> prefix D (I @ x)" using inc by (auto simp: prefix_def)
  then show "stagedStore D I m0 S (I @ x) = (if x \<in> S then None else m0 (I @ x))"
    by (auto simp: stagedStore_def)
  show "\<not> prefix D p \<Longrightarrow> \<not> prefix I p \<Longrightarrow> stagedStore D I m0 S p = m0 p"
    by (auto simp: stagedStore_def prefix_def)
qed

lemma path_cases:
  obtains (d) x where "p = D @ x" | (i) x where "p = I @ x" | (o) "\<not> prefix D p" "\<not> prefix I p"
  by (auto simp: prefix_def)

lemma stagedStore_insert:
  assumes inc: "\<forall>x y. I @ x \<noteq> D @ y"
    and F: "map_of (files u) = stagedStore D I m0 S"
    and c: "map_of (files u) (I @ y) = Some c"
  shows "((stagedStore D I m0 S)(D @ y \<mapsto> c))(I @ y := None) = stagedStore D I m0 (insert y S)"
proof
  fix p
  have yS: "y \<notin> S" "m0 (I @ y) = Some c"
    using c unfolding F stagedStore_simps(2) [OF inc] by (auto split: if_splits)
  have inc2: "D @ a \<noteq> I @ b" for a b using inc by metis
  show "(((stagedStore D I m0 S)(D @ y \<mapsto> c))(I @ y := None)) p = stagedStore D I m0 (insert y S) p"
  proof (cases rule: path_cases [where p = p and D = D and I = I])
    case (d x)
    then show ?thesis using yS by (simp add: stagedStore_simps(1) [OF inc] inc2)
  next
    case (i x)
    then show ?thesis using yS inc by (simp add: stagedStore_simps(2) [OF inc])
  next
    case o
    then have "p \<noteq> D @ y" "p \<noteq> I @ y" by auto
    then show ?thesis using o by (simp add: stagedStore_simps(3) [OF inc])
  qed
qed

lemma rglob_set:
  "set (rglob u D) = {t. strict_prefix D t \<and> (t \<in> set (dirs u) \<or> map_of (files u) t \<noteq> None)}"
  by (auto simp: rglob_def map_of_eq_None_iff)

lemma revert_staged:
  assumes env: "\<forall>a b k. \<not> e (OsReplace a b) k"
    and inc: "\<forall>x y. I @ x \<noteq> D @ y"
    and F: "map_of (files u) = stagedStore D I m0 S"
    and S0: "[] \<notin> S"
    and mS: "\<forall>x \<in> S. m0 (I @ x) \<noteq> None"
  shows "map_of (files (revertGroupDelete e D I u)) p = (if prefix D p then None else m0 p)"
proof -
  let ?L = "rglob u D"
  have L1: "\<forall>x. D @ x \<in> set ?L \<longrightarrow> x \<noteq> []" by (auto simp: rglob_set)
  have L2: "\<forall>t \<in> set ?L. prefix D t" by (auto simp: rglob_set strict_prefix_def)
  note fold = revert_fold_files [OF env inc L1 L2, of u p]
  have inc2: "D @ a \<noteq> I @ b" for a b using inc by metis
  have sp: "strict_prefix D (D @ x) \<longleftrightarrow> x \<noteq> []" for x by (auto simp: strict_prefix_def)
  show ?thesis
  proof (cases rule: path_cases [where p = p and D = D and I = I])
    case (d x)
    show ?thesis
      unfolding revertGroupDelete_def fold
      using S0 by (auto simp: d rglob_set sp F stagedStore_simps(1) [OF inc] inc2)
  next
    case (i x)
    have nD: "\<not> prefix D (I @ x)" using inc by (auto simp: prefix_def)
    have nL: "I @ x \<notin> set ?L" using nD by (auto simp: rglob_set strict_prefix_def)
    show ?thesis
      unfolding revertGroupDelete_def fold
      using nL nD mS S0
      by (auto simp: i rglob_set sp F stagedStore_simps(1,2) [OF inc])
  next
    case o
    have nL: "p \<notin> set ?L" using o by (auto simp: rglob_set strict_prefix_def)
    have nI: "\<And>x. p \<noteq> I @ x" using o by (auto simp: prefix_def)
    show ?thesis
      unfolding revertGroupDelete_def fold
      using nL nI o by (simp add: F stagedStore_simps(3) [OF inc])
  qed
qed

lemma revertOne_dirs [simp]: "dirs (revertOne e D I t u) = dirs u"
  by (simp add: revertOne_def os_replace_unfold Let_def split: option.splits)

lemma revertGroupDelete_dirs [simp]: "dirs (revertGroupDelete e D I u) = dirs u"
proof -
  have "dirs (fold (revertOne e D I) L u) = dirs u" for L
    by (induction L arbitrary: u) simp_all
  then show ?thesis by (simp add: revertGroupDelete_def)
qed

lemma sh_copyfile_ok:
  assumes "map_of (files u) s = Some c" "s \<noteq> d" "\<forall>k. \<not> e (ShCopyfile s d) k"
  shows "\<exists>u'. sh_copyfile e s d u = (True, u') \<and> dirs u' = dirs u
            \<and> map_of (files u') = (map_of (files u))(d \<mapsto> c)"
  using assms by (simp add: sh_copyfile_unfold update_conv')

lemma os_remove_ok:
  assumes "map_of (files u) p = Some c" "\<forall>k. \<not> e (OsRemove p) k"
  shows "\<exists>u'. os_remove e p u = (True, u') \<and> dirs u' = dirs u
            \<and> map_of (files u') = (map_of (files u))(p := None)"
  using assms by (simp add: os_remove_unfold delete_conv')

lemma deleteGroupLoop_staged:
  assumes env: "\<forall>c k. e c k \<longrightarrow> (\<exists>x. c = OsRemove (I @ x))"
    and inc: "\<forall>x y. I @ x \<noteq> D @ y"
  shows "map_of (files u) = stagedStore D I m0 S \<Longrightarrow> [] \<notin> S \<Longrightarrow>
         \<forall>x \<in> S. m0 (I @ x) \<noteq> None \<Longrightarrow>
         \<forall>x \<in> set fps. I @ x \<notin> set (dirs u) \<Longrightarrow> [] \<notin> set fps \<Longrightarrow>
         deleteGroupLoop e D I n iv fps u = (r, u') \<Longrightarrow>
         set (dirs u) \<subseteq> set (dirs u') \<and>
         ((r = Returned \<and>
             map_of (files u') = stagedStore D I m0 (S \<union> {x \<in> set fps. m0 (I @ x) \<noteq> None}))
          \<or> (r = Raised RetriableFailure \<and>
             (\<forall>p. map_of (files u') p = (if prefix D p then None else m0 p))))"
proof (induction fps arbitrary: u S)
  case Nil
  then show ?case by auto
next
  case (Cons y rest)
  note F = Cons.prems(1)
  have ynil: "y \<noteq> []" using Cons.prems(5) by auto
  have inc2: "D @ a \<noteq> I @ b" for a b using inc by metis
  show ?case
  proof (cases "exists_path u (I @ y)")
    case False
    then have none: "map_of (files u) (I @ y) = None"
      by (simp add: exists_path_def isfile_def)
    have yS: "m0 (I @ y) \<noteq> None \<longrightarrow> y \<in> S"
      using none unfolding F stagedStore_simps(2) [OF inc] by (auto split: if_splits)
    have run: "deleteGroupLoop e D I n iv rest u = (r, u')"
      using Cons.prems(6) False by simp
    have sets: "S \<union> {x \<in> set (y # rest). m0 (I @ x) \<noteq> None}
              = S \<union> {x \<in> set rest. m0 (I @ x) \<noteq> None}"
      using yS by auto
    show ?thesis
      unfolding sets
      using Cons.IH [OF F Cons.prems(2,3) _ _ run] Cons.prems(4,5) by simp
  next
    case True
    have "I @ y \<notin> set (dirs u)" using Cons.prems(4) by simp
    with True obtain c where c: "map_of (files u) (I @ y) = Some c"
      by (auto simp: exists_path_def isfile_def isdir_def)
    have yS: "y \<notin> S" "m0 (I @ y) = Some c"
      using c unfolding F stagedStore_simps(2) [OF inc] by (auto split: if_splits)
    let ?u1 = "mkdir_parents (butlast (D @ y)) u"
    have ncopy: "\<forall>k. \<not> e (ShCopyfile (I @ y) (D @ y)) k" using env by auto
    from sh_copyfile_ok [of ?u1 "I @ y" c "D @ y" e] c inc ncopy
    obtain u2 where u2: "sh_copyfile e (I @ y) (D @ y) ?u1 = (True, u2)"
      "dirs u2 = dirs ?u1" "map_of (files u2) = (map_of (files u))(D @ y \<mapsto> c)"
      by auto
    obtain ok u3 where u3: "deleteTries e (I @ y) iv True (nat n) u2 = (ok, u3)" by force
    note eff = deleteTries_effect [OF u3]
    have d3: "set (dirs u3) = set (dirs u) \<union> set (prefixes (butlast (D @ y)))"
      using eff u2(2) by simp
    have sub3: "set (dirs u) \<subseteq> set (dirs u3)" using d3 by auto
    show ?thesis
    proof (cases ok)
      case True
      have run: "deleteGroupLoop e D I n iv rest u3 = (r, u')"
        using Cons.prems(6) \<open>exists_path u (I @ y)\<close> u2(1) u3 True by (simp add: Let_def)
      have F3: "map_of (files u3) = stagedStore D I m0 (insert y S)"
        using eff True u2(3) stagedStore_insert [OF inc F c] by (simp add: F)
      have S3: "[] \<notin> insert y S" using Cons.prems(2) ynil by auto
      have m3: "\<forall>x \<in> insert y S. m0 (I @ x) \<noteq> None" using Cons.prems(3) yS by auto
      have dirs3: "\<forall>x \<in> set rest. I @ x \<notin> set (dirs u3)"
      proof
        fix x assume x: "x \<in> set rest"
        have "I @ x \<notin> set (prefixes (butlast (D @ y)))"
        proof
          assume "I @ x \<in> set (prefixes (butlast (D @ y)))"
          then have "prefix (I @ x) (butlast (D @ y))" by (simp add: in_set_prefixes)
          then have "prefix (I @ x) (D @ y)" by (meson prefix_order.trans prefixeq_butlast)
          then show False using under_both [OF inc] by blast
        qed
        then show "I @ x \<notin> set (dirs u3)" using d3 Cons.prems(4) x by auto
      qed
      have nil3: "[] \<notin> set rest" using Cons.prems(5) by auto
      have sets: "insert y S \<union> {x \<in> set rest. m0 (I @ x) \<noteq> None}
                = S \<union> {x \<in> set (y # rest). m0 (I @ x) \<noteq> None}"
        using yS by auto
      show ?thesis
        using Cons.IH [OF F3 S3 m3 dirs3 nil3 run] sub3 unfolding sets by auto
    next
      case False
      have F3: "map_of (files u3) = (map_of (files u))(D @ y \<mapsto> c)"
        using eff False u2(3) by simp
      have nrem: "\<forall>k. \<not> e (OsRemove (D @ y)) k" using env inc2 by auto
      from os_remove_ok [of u3 "D @ y" c e] F3 nrem
      obtain u4 where u4: "os_remove e (D @ y) u3 = (True, u4)" "dirs u4 = dirs u3"
        "map_of (files u4) = ((map_of (files u))(D @ y \<mapsto> c))(D @ y := None)"
        by auto
      have "map_of (files u) (D @ y) = None"
        unfolding F stagedStore_simps(1) [OF inc] using yS by simp
      then have F4: "map_of (files u4) = stagedStore D I m0 S"
        using u4(3) F by (auto simp: fun_eq_iff)
      have res: "r = Raised RetriableFailure" "u' = revertGroupDelete e D I u4"
        using Cons.prems(6) \<open>exists_path u (I @ y)\<close> u2(1) u3 False u4(1)
        by (simp_all add: Let_def)
      have nrep: "\<forall>a b k. \<not> e (OsReplace a b) k" using env by auto
      show ?thesis
        using revert_staged [OF nrep inc F4 Cons.prems(2,3)] sub3 u4(2)
        by (simp add: res)
    qed
  qed
qed

lemma sh_copyfile_keeps:
  "sh_copyfile e s d u = (ok, u') \<Longrightarrow> map_of (files u) q \<noteq> None \<Longrightarrow> map_of (files u') q \<noteq> None"
  by (auto simp: sh_copyfile_unfold update_conv' split: option.splits if_splits)

lemma deleteGroupLoop_undeletable:
  assumes locked: "\<forall>k. e (OsRemove (I @ x)) k"
  shows "x \<in> set fps \<Longrightarrow> map_of (files u) (I @ x) \<noteq> None \<Longrightarrow>
         fst (deleteGroupLoop e D I n iv fps u) \<noteq> Returned"
proof (induction fps arbitrary: u)
  case Nil
  then show ?case by simp
next
  case (Cons y rest)
  show ?case
  proof (cases "exists_path u (I @ y)")
    case False
    then have "y \<noteq> x" using Cons.prems(2) by (auto simp: exists_path_def isfile_def)
    then have "x \<in> set rest" using Cons.prems(1) by auto
    from Cons.IH [OF this Cons.prems(2)] show ?thesis using False by simp
  next
    case True
    let ?u1 = "mkdir_parents (butlast (D @ y)) u"
    obtain staged u2 where u2: "sh_copyfile e (I @ y) (D @ y) ?u1 = (staged, u2)" by force
    obtain ok u3 where u3: "deleteTries e (I @ y) iv True (nat n) u2 = (ok, u3)" by force
    obtain un u4 where u4: "os_remove e (D @ y) u3 = (un, u4)" by force
    have unfold: "deleteGroupLoop e D I n iv (y # rest) u =
        (if \<not> staged then (Raised OSError, u2)
         else if ok then deleteGroupLoop e D I n iv rest u3
         else if \<not> un then (Raised OSError, u4)
         else (Raised RetriableFailure, revertGroupDelete e D I u4))"
      using True u2 u3 u4 by (simp add: Let_def)
    show ?thesis
    proof (cases "staged \<and> ok")
      case False
      then show ?thesis unfolding unfold by auto
    next
      case True
      have "y \<noteq> x"
        using deleteTries_blocked [of e "I @ x" iv True "nat n" u2] locked u3 True by auto
      then have xr: "x \<in> set rest" using Cons.prems(1) by auto
      have "map_of (files u2) (I @ x) \<noteq> None"
        using sh_copyfile_keeps [OF u2] Cons.prems(2) by simp
      then have "map_of (files u3) (I @ x) \<noteq> None"
        using deleteTries_effect [OF u3] True \<open>y \<noteq> x\<close> by simp
      from Cons.IH [OF xr this] show ?thesis unfolding unfold using True by simp
    qed
  qed
qed

lemma scratch_apart:
  assumes root: "isdir w I" and tmp: "\<not> prefix I tmpRoot"
  shows "I @ x \<noteq> (tmpRoot @ [freshName w]) @ y"
proof
  assume eq: "I @ x = (tmpRoot @ [freshName w]) @ y"
  have "prefix I (I @ x)" by simp
  moreover have "prefix (tmpRoot @ [freshName w]) (I @ x)" by (simp add: eq)
  ultimately consider "prefix I (tmpRoot @ [freshName w])" | "prefix (tmpRoot @ [freshName w]) I"
    by (metis prefix_same_cases)
  then show False
  proof cases
    case 1
    then have "I = tmpRoot @ [freshName w]" using tmp by (simp add: prefix_snoc)
    then show False
      using root fresh_dir_absent [of tmpRoot w "[]"] by (simp add: isdir_def)
  next
    case 2
    then obtain r where "I = tmpRoot @ [freshName w] @ r" by (auto simp: prefix_def)
    then show False using root fresh_dir_absent [of tmpRoot w r] by (simp add: isdir_def)
  qed
qed

lemma stagedStore_empty:
  assumes "\<forall>p. prefix D p \<longrightarrow> m0 p = None"
  shows "stagedStore D I m0 {} = m0"
  using assms by (auto simp: stagedStore_def fun_eq_iff)


subsection \<open>Three attempts\<close>

lemma tryRemoveFile_third_attempt:
  assumes present: "isfile w path"
    and rename: "\<not> e (OsReplace path (butlast path @ [freshName w]))
                     (made w (OsReplace path (butlast path @ [freshName w])))"
    and fail1: "e (OsRemove (butlast path @ [freshName w]))
                  (made w (OsRemove (butlast path @ [freshName w])))"
    and fail2: "e (OsRemove (butlast path @ [freshName w]))
                  (Suc (made w (OsRemove (butlast path @ [freshName w]))))"
    and succ3: "\<not> e (OsRemove (butlast path @ [freshName w]))
                  (Suc (Suc (made w (OsRemove (butlast path @ [freshName w])))))"
  shows "fst (tryRemoveFile e path 3 0 rebootOK w) = Returned
       \<and> osRemoveCalls (snd (tryRemoveFile e path 3 0 rebootOK w))
           = osRemoveCalls w @ replicate 3 (butlast path @ [freshName w])
       \<and> \<not> isfile (snd (tryRemoveFile e path 3 0 rebootOK w)) path
       \<and> \<not> isfile (snd (tryRemoveFile e path 3 0 rebootOK w)) (butlast path @ [freshName w])"
proof -
  let ?t = "butlast path @ [freshName w]"
  obtain c where c: "map_of (files w) path = Some c"
    using present by (auto simp: isfile_def)
  have ne: "path \<noteq> ?t"
    using fresh_file_absent [of w "butlast path"] c by auto
  have nd: "?t \<notin> set (dirs w)"
    using fresh_dir_absent [of "butlast path" w "[]"] by simp
  let ?w2 = "w\<lparr>trace := trace w @ [OsReplace path ?t],
               files := AList.update ?t c (AList.delete path (AList.update ?t [] (files w)))\<rparr>"
  have r1: "os_replace e path ?t (w\<lparr>files := AList.update ?t [] (files w)\<rparr>) = (True, ?w2)"
    using c ne rename by (simp add: os_replace_unfold update_conv')
  have m2: "made ?w2 (OsRemove ?t) = made w (OsRemove ?t)"
    by (simp add: made_def)
  have f2: "map_of (files ?w2) ?t = Some c"
    by (simp add: update_conv')
  let ?w3 = "?w2\<lparr>trace := trace ?w2 @ [OsRemove ?t, TimeSleep 0, OsRemove ?t, TimeSleep 0, OsRemove ?t],
                 files := AList.delete ?t (files ?w2)\<rparr>"
  have r2: "removeRetries e ?t 0 (Suc (Suc (Suc 0))) ?w2 = (True, ?w3)"
    using fail1 fail2 succ3 nd
    by (simp add: isdir_def os_remove_unfold time_sleep_def made_trace_upd
        update_conv' made_def [symmetric, of w])
  have res: "tryRemoveFile e path 3 0 rebootOK w = (Returned, ?w3)"
    unfolding tryRemoveFile_def createEmptyTempFileForDeletingFile_def Let_def
    by (simp only: r1 split_conv) (simp add: numeral_3_eq_3 r2 del: removeRetries.simps)
  show ?thesis
    unfolding res using ne
    by (simp add: osRemoveCalls_def isfile_def update_conv' delete_conv' numeral_3_eq_3)
qed

lemma sh_rmtree_after:
  "trace (snd (sh_rmtree e d u)) = trace u @ [ShRmtree d]"
  "map_of (files u) p = None \<Longrightarrow> map_of (files (snd (sh_rmtree e d u))) p = None"
  by (simp_all add: sh_rmtree_unfold map_of_filter_key)

lemma made_mkdir_parents [simp]: "made (mkdir_parents d w) = made w"
  by (simp add: made_def fun_eq_iff)

lemma loop_third_attempt:
  assumes c: "map_of (files u) (I @ fp) = Some c"
    and ne: "I @ fp \<noteq> D @ fp"
    and copy: "\<not> e (ShCopyfile (I @ fp) (D @ fp)) (made u (ShCopyfile (I @ fp) (D @ fp)))"
    and fail1: "e (OsRemove (I @ fp)) (made u (OsRemove (I @ fp)))"
    and fail2: "e (OsRemove (I @ fp)) (Suc (made u (OsRemove (I @ fp))))"
    and succ3: "\<not> e (OsRemove (I @ fp)) (Suc (Suc (made u (OsRemove (I @ fp)))))"
  shows "\<exists>u3. deleteGroupLoop e D I 3 0 [fp] u = (Returned, u3)
            \<and> trace u3 = trace u @ [ShCopyfile (I @ fp) (D @ fp), OsRemove (I @ fp),
                  TimeSleep 0, OsRemove (I @ fp), TimeSleep 0, OsRemove (I @ fp)]
            \<and> map_of (files u3) (I @ fp) = None"
proof -
  let ?u1 = "mkdir_parents (butlast (D @ fp)) u"
  have ex: "exists_path u (I @ fp)"
    using c by (simp add: exists_path_def isfile_def)
  let ?u2 = "?u1\<lparr>trace := trace u @ [ShCopyfile (I @ fp) (D @ fp)],
                   files := AList.update (D @ fp) c (files u)\<rparr>"
  have r1: "sh_copyfile e (I @ fp) (D @ fp) ?u1 = (True, ?u2)"
    using c ne copy by (simp add: sh_copyfile_unfold)
  let ?u3 = "?u1\<lparr>trace := trace u @ [ShCopyfile (I @ fp) (D @ fp), OsRemove (I @ fp),
                        TimeSleep 0, OsRemove (I @ fp), TimeSleep 0, OsRemove (I @ fp)],
                   files := AList.delete (I @ fp) (AList.update (D @ fp) c (files u))\<rparr>"
  have r2: "deleteTries e (I @ fp) 0 True (Suc (Suc (Suc 0))) ?u2 = (True, ?u3)"
    using fail1 fail2 succ3 c ne
    by (simp add: os_remove_unfold time_sleep_def made_trace_upd update_conv'
        made_def [symmetric, of u])
  have loop: "deleteGroupLoop e D I 3 0 [fp] u = (Returned, ?u3)"
    using ex r1 by (simp add: Let_def numeral_3_eq_3 r2 del: deleteTries.simps)
  show ?thesis unfolding loop by (simp add: delete_conv')
qed

lemma group_third_attempt:
  assumes present: "isfile w (I @ fp)"
    and copy: "\<not> e (ShCopyfile (I @ fp) (scratchDir tmpRoot w @ fp))
                   (made w (ShCopyfile (I @ fp) (scratchDir tmpRoot w @ fp)))"
    and fail1: "e (OsRemove (I @ fp)) (made w (OsRemove (I @ fp)))"
    and fail2: "e (OsRemove (I @ fp)) (Suc (made w (OsRemove (I @ fp))))"
    and succ3: "\<not> e (OsRemove (I @ fp)) (Suc (Suc (made w (OsRemove (I @ fp)))))"
  shows "fst (deleteFileGroupOrFail e tmpRoot I [fp] 3 0 w) = Returned
       \<and> osRemoveCalls (snd (deleteFileGroupOrFail e tmpRoot I [fp] 3 0 w))
           = osRemoveCalls w @ replicate 3 (I @ fp)
       \<and> \<not> isfile (snd (deleteFileGroupOrFail e tmpRoot I [fp] 3 0 w)) (I @ fp)"
proof -
  define D where "D = tmpRoot @ [freshName w]"
  have D: "scratchDir tmpRoot w = D" by (simp add: scratchDir_def mkdtemp_def Let_def D_def)
  obtain c where c: "map_of (files w) (I @ fp) = Some c"
    using present by (auto simp: isfile_def)
  have ne: "I @ fp \<noteq> D @ fp"
    using fresh_file_absent_under [of w tmpRoot fp] c by (auto simp: D_def)
  let ?w1 = "w\<lparr>dirs := dirs w @ [D]\<rparr>"
  have c1: "map_of (files ?w1) (I @ fp) = Some c" using c by simp
  from loop_third_attempt [of ?w1 I fp c D e, OF c1 ne]
  obtain u3 where u3: "deleteGroupLoop e D I 3 0 [fp] ?w1 = (Returned, u3)"
    "trace u3 = trace w @ [ShCopyfile (I @ fp) (D @ fp), OsRemove (I @ fp),
                  TimeSleep 0, OsRemove (I @ fp), TimeSleep 0, OsRemove (I @ fp)]"
    "map_of (files u3) (I @ fp) = None"
    using copy fail1 fail2 succ3 unfolding D by auto
  have res: "deleteFileGroupOrFail e tmpRoot I [fp] 3 0 w = (Returned, snd (sh_rmtree e D u3))"
    unfolding deleteFileGroupOrFail_def mkdtemp_def Let_def D_def [symmetric]
    by (simp only: split_conv u3(1)) (simp add: split_beta)
  show ?thesis
    unfolding res
    using sh_rmtree_after(2) [OF u3(3), of e D]
    by (simp add: osRemoveCalls_def sh_rmtree_after(1) u3(2) isfile_def numeral_3_eq_3)
qed

subsection \<open>Deferring a deletion to the next restart\<close>

lemma tryRemoveFile_deferred_aux:
  assumes present: "isfile w path"
    and rename: "\<not> e (OsReplace path (butlast path @ [freshName w]))
                     (made w (OsReplace path (butlast path @ [freshName w])))"
    and locked: "\<forall>k. e (OsRemove (butlast path @ [freshName w])) k"
    and register: "\<not> e (MoveFileEx (butlast path @ [freshName w]))
                       (made w (MoveFileEx (butlast path @ [freshName w])))"
  shows "fst (tryRemoveFile e path numRetries iv True w) = Returned
       \<and> moveFileExCalls (snd (tryRemoveFile e path numRetries iv True w))
           = moveFileExCalls w @ [butlast path @ [freshName w]]
       \<and> rebootDeletes (snd (tryRemoveFile e path numRetries iv True w))
           = rebootDeletes w @ [butlast path @ [freshName w]]
       \<and> \<not> isfile (snd (tryRemoveFile e path numRetries iv True w)) path"
proof -
  let ?t = "butlast path @ [freshName w]"
  obtain c where c: "map_of (files w) path = Some c"
    using present by (auto simp: isfile_def)
  have ne: "path \<noteq> ?t"
    using fresh_file_absent [of w "butlast path"] c by auto
  have nd: "?t \<notin> set (dirs w)"
    using fresh_dir_absent [of "butlast path" w "[]"] by simp
  let ?w2 = "w\<lparr>trace := trace w @ [OsReplace path ?t],
               files := AList.update ?t c (AList.delete path (AList.update ?t [] (files w)))\<rparr>"
  have mk: "made (w\<lparr>files := AList.update ?t [] (files w)\<rparr>) = made w"
    by (simp add: made_def fun_eq_iff)
  have r1: "os_replace e path ?t (w\<lparr>files := AList.update ?t [] (files w)\<rparr>) = (True, ?w2)"
    using c ne rename by (simp add: os_replace_unfold update_conv' mk)
  have r2: "removeRetries e ?t iv (nat numRetries) ?w2 =
      (False, ?w2\<lparr>trace := trace ?w2 @ concat (replicate (nat numRetries) [OsRemove ?t, TimeSleep iv])\<rparr>)"
    using locked nd by (intro removeRetries_all_fail) simp_all
  let ?w3 = "?w2\<lparr>trace := trace ?w2 @ concat (replicate (nat numRetries) [OsRemove ?t, TimeSleep iv])\<rparr>"
  have cnt: "made ?w3 (MoveFileEx ?t) = made w (MoveFileEx ?t)"
    by (induction "nat numRetries") (simp_all add: made_def)
  have ex: "exists_path ?w3 ?t"
    by (simp add: exists_path_def isfile_def update_conv')
  have r3: "moveFileEx e ?t ?w3 =
      (True, ?w3\<lparr>trace := trace ?w3 @ [MoveFileEx ?t], rebootDeletes := rebootDeletes ?w3 @ [?t]\<rparr>)"
    using register ex by (simp only: moveFileEx_unfold cnt) simp
  have res: "tryRemoveFile e path numRetries iv True w =
      (Returned, ?w3\<lparr>trace := trace ?w3 @ [MoveFileEx ?t], rebootDeletes := rebootDeletes ?w3 @ [?t]\<rparr>)"
    unfolding tryRemoveFile_def createEmptyTempFileForDeletingFile_def Let_def
    by (simp only: r1 r2 r3 split_conv) simp
  have calls: "concat (map (\<lambda>c. case c of MoveFileEx p \<Rightarrow> [p] | _ \<Rightarrow> [])
                 (concat (replicate n [OsRemove ?t, TimeSleep iv]))) = []" for n
    by (induction n) simp_all
  show ?thesis
    unfolding res using ne
    by (simp add: moveFileExCalls_def calls isfile_def update_conv' delete_conv')
qed

lemma tryRemoveFile_exhausted_aux:
  assumes present: "isfile w path"
    and rename: "\<not> e (OsReplace path (butlast path @ [freshName w]))
                     (made w (OsReplace path (butlast path @ [freshName w])))"
    and locked: "\<forall>k. e (OsRemove (butlast path @ [freshName w])) k"
    and noreg: "rebootOK \<longrightarrow> e (MoveFileEx (butlast path @ [freshName w]))
                       (made w (MoveFileEx (butlast path @ [freshName w])))"
  shows "fst (tryRemoveFile e path numRetries iv rebootOK w) = Raised RetriableFailure
       \<and> last (trace (snd (tryRemoveFile e path numRetries iv rebootOK w)))
           = OsReplace (butlast path @ [freshName w]) path
       \<and> rebootDeletes (snd (tryRemoveFile e path numRetries iv rebootOK w)) = rebootDeletes w
       \<and> map_of (files (snd (tryRemoveFile e path numRetries iv rebootOK w))) =
           (if e (OsReplace (butlast path @ [freshName w]) path)
                 (made w (OsReplace (butlast path @ [freshName w]) path))
            then ((map_of (files w))(path := None))
                    (butlast path @ [freshName w] := map_of (files w) path)
            else map_of (files w))"
proof -
  define t where "t = butlast path @ [freshName w]"
  note assms' = assms [folded t_def]
  obtain c where c: "map_of (files w) path = Some c"
    using present by (auto simp: isfile_def)
  have fr: "map_of (files w) t = None" unfolding t_def by (rule fresh_file_absent)
  have ne: "path \<noteq> t" using fr c by auto
  have nd: "t \<notin> set (dirs w)"
    using fresh_dir_absent [of "butlast path" w "[]"] by (simp add: t_def)
  define w2 where "w2 = w\<lparr>trace := trace w @ [OsReplace path t],
               files := AList.update t c (AList.delete path (AList.update t [] (files w)))\<rparr>"
  have r1: "os_replace e path t (w\<lparr>files := AList.update t [] (files w)\<rparr>) = (True, w2)"
    using c ne assms'(2) by (simp add: os_replace_unfold update_conv' w2_def)
  define w3 where "w3 = w2\<lparr>trace := trace w2 @ concat (replicate (nat numRetries) [OsRemove t, TimeSleep iv])\<rparr>"
  have r2: "removeRetries e t iv (nat numRetries) w2 = (False, w3)"
    unfolding w3_def using assms'(3) nd by (intro removeRetries_all_fail) (simp_all add: w2_def)
  have cnt: "count_list (concat (replicate n [OsRemove t, TimeSleep iv])) c' = 0"
    if "c' \<noteq> OsRemove t" "c' \<noteq> TimeSleep iv" for n c'
    using that by (induction n) simp_all
  have m3: "made w3 (MoveFileEx t) = made w (MoveFileEx t)"
    by (simp add: made_def w3_def w2_def cnt)
  define w4 where "w4 = (if rebootOK then w3\<lparr>trace := trace w3 @ [MoveFileEx t]\<rparr> else w3)"
  have r3: "(if rebootOK then moveFileEx e t w3 else (False, w3)) = (False, w4)"
    using assms'(4) by (simp add: moveFileEx_unfold m3 w4_def)
  have m4: "made w4 (OsReplace t path) = made w (OsReplace t path)"
    using ne by (auto simp: made_def w4_def w3_def w2_def cnt)
  have f4: "map_of (files w4) = ((map_of (files w))(path := None))(t \<mapsto> c)"
    by (auto simp: w4_def w3_def w2_def update_conv' delete_conv' fun_eq_iff)
  have res: "tryRemoveFile e path numRetries iv rebootOK w
      = (Raised RetriableFailure, snd (os_replace e t path w4))"
    unfolding tryRemoveFile_def createEmptyTempFileForDeletingFile_def Let_def t_def [symmetric]
    by (simp only: r1 r2 r3 split_conv) (simp add: split_beta)
  have tr: "last (trace (snd (os_replace e t path w4))) = OsReplace t path"
    by (simp add: os_replace_unfold split: option.splits)
  have rb: "rebootDeletes (snd (os_replace e t path w4)) = rebootDeletes w"
    by (simp add: os_replace_unfold w4_def w3_def w2_def split: option.splits)
  have fs: "map_of (files (snd (os_replace e t path w4))) =
      (if e (OsReplace t path) (made w (OsReplace t path))
       then ((map_of (files w))(path := None))(t := map_of (files w) path)
       else map_of (files w))"
    using c fr ne
    by (auto simp: os_replace_unfold f4 m4 update_conv' delete_conv' fun_eq_iff)
  show ?thesis
    unfolding res t_def [symmetric] using tr rb fs by simp
qed

subsection \<open>Members that do not exist\<close>

lemma deleteGroupLoop_skip_all:
  "\<forall>fp \<in> set fps. \<not> exists_path u (I @ fp) \<Longrightarrow>
   deleteGroupLoop e D I n iv fps u = (Returned, u)"
  by (induction fps) simp_all

lemma fresh_not_under:
  assumes "p \<in> set (map fst (files w)) \<union> set (dirs w)"
  shows "\<not> prefix (d @ [freshName w]) p"
proof
  assume "prefix (d @ [freshName w]) p"
  then obtain r where "p = d @ [freshName w] @ r" by (auto simp: prefix_def)
  then have "freshName w \<in> set p" by simp
  then show False using freshName_not_component [OF assms] by simp
qed


subsection \<open>Environments that differ in the renames only\<close>

lemma agree_calls:
  assumes "\<forall>c k. (\<forall>a b. c \<noteq> OsReplace a b) \<longrightarrow> e c k = e' c k"
  shows "sh_copyfile e s d u = sh_copyfile e' s d u"
    and "os_remove e p u = os_remove e' p u"
    and "sh_rmtree e d u = sh_rmtree e' d u"
proof -
  have a: "e (ShCopyfile s d) k = e' (ShCopyfile s d) k"
    "e (OsRemove p) k = e' (OsRemove p) k" "e (ShRmtree d) k = e' (ShRmtree d) k" for k
    using assms by simp_all
  show "sh_copyfile e s d u = sh_copyfile e' s d u"
    by (simp add: sh_copyfile_unfold a cong: option.case_cong)
  show "os_remove e p u = os_remove e' p u"
    by (simp add: os_remove_unfold a)
  show "sh_rmtree e d u = sh_rmtree e' d u"
    by (simp add: sh_rmtree_unfold a)
qed

lemma agree_deleteTries:
  assumes "\<forall>c k. (\<forall>a b. c \<noteq> OsReplace a b) \<longrightarrow> e c k = e' c k"
  shows "deleteTries e p iv first n u = deleteTries e' p iv first n u"
  by (induction n arbitrary: first u) (simp_all add: agree_calls(2) [OF assms] split_beta Let_def)

lemma agree_deleteGroupLoop:
  assumes "\<forall>c k. (\<forall>a b. c \<noteq> OsReplace a b) \<longrightarrow> e c k = e' c k"
  shows "fst (deleteGroupLoop e D I n iv fps u) = fst (deleteGroupLoop e' D I n iv fps u)"
proof (induction fps arbitrary: u)
  case Nil
  show ?case by simp
next
  case (Cons y rest)
  show ?case
    by (simp add: Let_def split_beta agree_calls [OF assms] agree_deleteTries [OF assms] Cons.IH)
qed


subsection \<open>The fallback of the copy\<close>

lemma tryCopyFile_fallback_aux:
  assumes s: "map_of (files w) src = Some cs"
    and d: "map_of (files w) dst = Some cd"
    and ne: "src \<noteq> dst"
    and t: "t = butlast dst @ [freshName w]"
    and first: "e (CopyFileW src dst) (made w (CopyFileW src dst))"
    and rename: "\<not> e (OsReplace dst t) (made w (OsReplace dst t))"
    and register: "\<not> e (MoveFileEx t) (made w (MoveFileEx t))"
  shows "\<exists>w4. tryCopyFile e src dst w =
           (if e (CopyFileW src dst) (Suc (made w (CopyFileW src dst)))
            then (Raised OSError, w4\<lparr>trace := trace w4 @ [CopyFileW src dst]\<rparr>)
            else (Returned, w4\<lparr>trace := trace w4 @ [CopyFileW src dst],
                               files := AList.update dst cs (files w4)\<rparr>))
         \<and> trace w4 = trace w @ [CopyFileW src dst, OsReplace dst t, MoveFileEx t]
         \<and> rebootDeletes w4 = rebootDeletes w @ [t]
         \<and> map_of (files w4) = ((map_of (files w))(dst := None))(t \<mapsto> cd)"
proof -
  have fr: "map_of (files w) t = None" unfolding t by (rule fresh_file_absent)
  have nt: "src \<noteq> t" "dst \<noteq> t" using fr s d by auto
  define w1 where "w1 = w\<lparr>trace := trace w @ [CopyFileW src dst]\<rparr>"
  have r1: "copyFileW e src dst w = (False, w1)"
    using s first by (simp add: copyFileW_unfold w1_def)
  have ex1: "exists_path w1 dst" using d by (simp add: exists_path_def isfile_def w1_def)
  have fn1: "freshName w1 = freshName w" by (simp add: freshName_def w1_def)
  define w2 where "w2 = w1\<lparr>files := AList.update t [] (files w1)\<rparr>"
  have r2: "createEmptyTempFileForDeletingFile (butlast dst) w1 = (t, w2)"
    by (simp add: createEmptyTempFileForDeletingFile_def Let_def fn1 t w2_def)
  define w3 where "w3 = w2\<lparr>trace := trace w2 @ [OsReplace dst t],
                          files := AList.update t cd (AList.delete dst (files w2))\<rparr>"
  have r3: "os_replace e dst t w2 = (True, w3)"
    using d nt rename
    by (simp add: os_replace_unfold w3_def w2_def w1_def update_conv' made_trace_snoc)
  define w4 where "w4 = w3\<lparr>trace := trace w3 @ [MoveFileEx t],
                          rebootDeletes := rebootDeletes w3 @ [t]\<rparr>"
  have ex3: "exists_path w3 t"
    by (simp add: exists_path_def isfile_def w3_def update_conv')
  have r4: "moveFileEx e t w3 = (True, w4)"
    using register ex3
    by (simp add: moveFileEx_unfold w4_def)
       (simp add: w3_def w2_def w1_def made_trace_upd made_def [symmetric, of w])
  have f4: "map_of (files w4) = ((map_of (files w))(dst := None))(t \<mapsto> cd)"
    by (auto simp: w4_def w3_def w2_def w1_def update_conv' delete_conv' fun_eq_iff)
  have s4: "map_of (files w4) src = Some cs" using s ne nt by (simp add: f4)
  have m4: "made w4 (CopyFileW src dst) = Suc (made w (CopyFileW src dst))"
    by (simp add: w4_def w3_def w2_def w1_def made_def)
  have r5: "copyFileW e src dst w4 =
      (if e (CopyFileW src dst) (Suc (made w (CopyFileW src dst)))
       then (False, w4\<lparr>trace := trace w4 @ [CopyFileW src dst]\<rparr>)
       else (True, w4\<lparr>trace := trace w4 @ [CopyFileW src dst],
                      files := AList.update dst cs (files w4)\<rparr>))"
    using s4 by (simp add: copyFileW_unfold m4)
  have res: "tryCopyFile e src dst w =
      (if e (CopyFileW src dst) (Suc (made w (CopyFileW src dst)))
       then (Raised OSError, w4\<lparr>trace := trace w4 @ [CopyFileW src dst]\<rparr>)
       else (Returned, w4\<lparr>trace := trace w4 @ [CopyFileW src dst],
                          files := AList.update dst cs (files w4)\<rparr>))"
    unfolding tryCopyFile_def Let_def
    by (simp only: r1 r2 r3 r4 r5 split_conv ex1) simp
  have tr: "trace w4 = trace w @ [CopyFileW src dst, OsReplace dst t, MoveFileEx t]"
    by (simp add: w4_def w3_def w2_def w1_def)
  have rb: "rebootDeletes w4 = rebootDeletes w @ [t]"
    by (simp add: w4_def w3_def w2_def w1_def)
  show ?thesis using res tr rb f4 by blast
qed

subsection \<open>What the walks visit and what the copy touches\<close>

lemma os_walk_nodir: "\<not> isdir w d \<Longrightarrow> os_walk w topdown d = []"
  by (subst os_walk.simps) simp

lemma os_walk_set:
  "isdir w d \<Longrightarrow>
   set (os_walk w topdown d) =
     insert (d, fst (listdir w d), snd (listdir w d))
       (\<Union>s \<in> set (fst (listdir w d)). set (os_walk w topdown (d @ [s])))"
  by (subst os_walk.simps) (auto simp: Let_def)

lemma os_walk_under:
  "(p, sds, fs) \<in> set (os_walk w topdown d) \<Longrightarrow> prefix d p"
proof (induction w topdown d rule: os_walk.induct)
  case (1 w topdown d)
  show ?case
  proof (cases "isdir w d")
    case False
    then show ?thesis using "1.prems" by (simp add: os_walk_nodir)
  next
    case True
    then have nn: "\<not> \<not> isdir w d" by simp
    from "1.prems" True
    consider "p = d" | s where "s \<in> set (fst (listdir w d))"
      "(p, sds, fs) \<in> set (os_walk w topdown (d @ [s]))"
      by (auto simp: os_walk_set)
    then show ?thesis
    proof cases
      case 1
      then show ?thesis by simp
    next
      case 2
      from "1.IH" [OF nn refl 2(1) 2(2)] have "prefix (d @ [s]) p" .
      then show ?thesis by (meson append_prefixD)
    qed
  qed
qed

lemma copyWalk_under:
  assumes "(p, sds, fs) \<in> set (copyWalk w src)"
  shows "p = src \<or> (\<exists>s. lower s \<notin> {''userconfig'', ''systemconfig''} \<and> prefix (src @ [s]) p)"
proof (cases "isdir w src")
  case False
  then show ?thesis using assms by (simp add: copyWalk_def)
next
  case True
  from assms True
  consider "p = src" | s where "lower s \<notin> {''userconfig'', ''systemconfig''}"
      "(p, sds, fs) \<in> set (os_walk w True (src @ [s]))"
    by (auto simp: copyWalk_def Let_def)
  then show ?thesis
  proof cases
    case 1
    then show ?thesis by simp
  next
    case 2
    then show ?thesis using os_walk_under by blast
  qed
qed

lemma copyWalk_prefix: "(p, sds, fs) \<in> set (copyWalk w src) \<Longrightarrow> prefix src p"
  using copyWalk_under [of p sds fs w src] by (auto dest: append_prefixD)

lemma copyWalk_skips:
  assumes "(p, sds, fs) \<in> set (copyWalk w src)"
    and "lower x \<in> {''userconfig'', ''systemconfig''}"
  shows "\<not> prefix (src @ [x]) p"
proof
  assume px: "prefix (src @ [x]) p"
  from copyWalk_under [OF assms(1)]
  show False
  proof
    assume "p = src"
    then show False using px by simp
  next
    assume "\<exists>s. lower s \<notin> {''userconfig'', ''systemconfig''} \<and> prefix (src @ [s]) p"
    then obtain s where s: "lower s \<notin> {''userconfig'', ''systemconfig''}" "prefix (src @ [s]) p"
      by blast
    from px s(2) have "prefix (src @ [x]) (src @ [s]) \<or> prefix (src @ [s]) (src @ [x])"
      by (rule prefix_same_cases)
    then have "x = s" by auto
    then show False using s(1) assms(2) by simp
  qed
qed

lemma isTmp_fresh: "isTmp (x @ [freshName w])"
  by (simp add: isTmp_def freshName_def)

lemma copyFileW_frame:
  "copyFileW e s d u = (ok, u') \<Longrightarrow>
     trace u' = trace u @ [CopyFileW s d] \<and> dirs u' = dirs u
     \<and> (\<forall>q. q \<noteq> d \<longrightarrow> map_of (files u') q = map_of (files u) q)"
  by (auto simp: copyFileW_unfold update_conv' split: option.splits if_splits)

lemma os_replace_frame:
  "os_replace e a b u = (ok, u') \<Longrightarrow>
     trace u' = trace u @ [OsReplace a b] \<and> dirs u' = dirs u
     \<and> (\<forall>q. q \<noteq> a \<and> q \<noteq> b \<longrightarrow> map_of (files u') q = map_of (files u) q)"
  by (auto simp: os_replace_unfold update_conv' delete_conv' split: option.splits if_splits)

lemma moveFileEx_frame:
  "moveFileEx e p u = (ok, u') \<Longrightarrow>
     trace u' = trace u @ [MoveFileEx p] \<and> dirs u' = dirs u \<and> files u' = files u"
  by (auto simp: moveFileEx_unfold split: if_splits)

lemma tryCopyFile_frame:
  assumes run: "tryCopyFile e s d w = (r, w')"
  shows "(\<forall>c \<in> set (trace w'). c \<in> set (trace w) \<or> c = CopyFileW s d
            \<or> (\<forall>a b. c \<noteq> CopyFileW a b))
       \<and> (\<forall>q. butlast q \<noteq> butlast d \<or> (q \<noteq> d \<and> \<not> isTmp q)
            \<longrightarrow> map_of (files w') q = map_of (files w) q)"
proof -
  obtain ok1 w1 where r1: "copyFileW e s d w = (ok1, w1)" by force
  note f1 = copyFileW_frame [OF r1]
  have good1: "(\<forall>c \<in> set (trace w1). c \<in> set (trace w) \<or> c = CopyFileW s d
            \<or> (\<forall>a b. c \<noteq> CopyFileW a b))
       \<and> (\<forall>q. butlast q \<noteq> butlast d \<or> (q \<noteq> d \<and> \<not> isTmp q)
            \<longrightarrow> map_of (files w1) q = map_of (files w) q)"
    using f1 by auto
  show ?thesis
  proof (cases "ok1 \<or> \<not> exists_path w1 d")
    case True
    then have "w' = w1" using run r1 by (auto simp: tryCopyFile_def Let_def split: if_splits)
    then show ?thesis using good1 by simp
  next
    case False
    define t where "t = butlast d @ [freshName w1]"
    define w2 where "w2 = w1\<lparr>files := AList.update t [] (files w1)\<rparr>"
    have r2: "createEmptyTempFileForDeletingFile (butlast d) w1 = (t, w2)"
      by (simp add: createEmptyTempFileForDeletingFile_def Let_def t_def w2_def)
    obtain ok3 w3 where r3: "os_replace e d t w2 = (ok3, w3)" by force
    note f3 = os_replace_frame [OF r3]
    have tq: "q \<noteq> t" if "butlast q \<noteq> butlast d \<or> (q \<noteq> d \<and> \<not> isTmp q)" for q
      using that isTmp_fresh [of "butlast d" w1] by (auto simp: t_def)
    have good3: "(\<forall>c \<in> set (trace w3). c \<in> set (trace w) \<or> c = CopyFileW s d
            \<or> (\<forall>a b. c \<noteq> CopyFileW a b))
       \<and> (\<forall>q. butlast q \<noteq> butlast d \<or> (q \<noteq> d \<and> \<not> isTmp q)
            \<longrightarrow> map_of (files w3) q = map_of (files w) q)"
    proof (intro conjI allI impI ballI)
      fix c assume "c \<in> set (trace w3)"
      then show "c \<in> set (trace w) \<or> c = CopyFileW s d \<or> (\<forall>a b. c \<noteq> CopyFileW a b)"
        using f3 good1 by (auto simp: w2_def)
    next
      fix q assume q: "butlast q \<noteq> butlast d \<or> (q \<noteq> d \<and> \<not> isTmp q)"
      then have "q \<noteq> d" "q \<noteq> t" using tq by auto
      then have "map_of (files w3) q = map_of (files w1) q"
        using f3 by (simp add: w2_def update_conv')
      then show "map_of (files w3) q = map_of (files w) q" using good1 q by simp
    qed
    show ?thesis
    proof (cases ok3)
      case False
      then have "w' = w3"
        using run r1 r2 r3 \<open>\<not> (ok1 \<or> \<not> exists_path w1 d)\<close>
        by (auto simp: tryCopyFile_def Let_def)
      then show ?thesis using good3 by simp
    next
      case True
      obtain ok4 w4 where r4: "moveFileEx e t w3 = (ok4, w4)" by force
      note f4 = moveFileEx_frame [OF r4]
      have good4: "(\<forall>c \<in> set (trace w4). c \<in> set (trace w) \<or> c = CopyFileW s d
            \<or> (\<forall>a b. c \<noteq> CopyFileW a b))
       \<and> (\<forall>q. butlast q \<noteq> butlast d \<or> (q \<noteq> d \<and> \<not> isTmp q)
            \<longrightarrow> map_of (files w4) q = map_of (files w) q)"
        using f4 good3 by auto
      show ?thesis
      proof (cases ok4)
        case False
        then have "w' = w4"
          using run r1 r2 r3 r4 True \<open>\<not> (ok1 \<or> \<not> exists_path w1 d)\<close>
          by (auto simp: tryCopyFile_def Let_def)
        then show ?thesis using good4 by simp
      next
        case ok: True
        obtain ok5 w5 where r5: "copyFileW e s d w4 = (ok5, w5)" by force
        note f5 = copyFileW_frame [OF r5]
        have "w' = w5"
          using run r1 r2 r3 r4 r5 True ok \<open>\<not> (ok1 \<or> \<not> exists_path w1 d)\<close>
          by (auto simp: tryCopyFile_def Let_def split: if_splits)
        moreover have "(\<forall>c \<in> set (trace w5). c \<in> set (trace w) \<or> c = CopyFileW s d
            \<or> (\<forall>a b. c \<noteq> CopyFileW a b))
           \<and> (\<forall>q. butlast q \<noteq> butlast d \<or> (q \<noteq> d \<and> \<not> isTmp q)
            \<longrightarrow> map_of (files w5) q = map_of (files w) q)"
          using f5 good4 by auto
        ultimately show ?thesis by simp
      qed
    qed
  qed
qed

lemma copyFilesIn_frame:
  "copyFilesIn e src dst cur fs w = (r, w') \<Longrightarrow>
     (\<forall>c \<in> set (trace w'). c \<in> set (trace w) \<or> (\<forall>a b. c \<noteq> CopyFileW a b)
        \<or> (\<exists>f \<in> set fs. \<not> (src = cur \<and> lower f = ''nvda.exe'')
              \<and> c = CopyFileW (cur @ [f]) (dst @ relpath (cur @ [f]) src)))
   \<and> (\<forall>q. (\<forall>f \<in> set fs. \<not> (src = cur \<and> lower f = ''nvda.exe'')
              \<longrightarrow> butlast q \<noteq> butlast (dst @ relpath (cur @ [f]) src)
                \<or> (q \<noteq> dst @ relpath (cur @ [f]) src \<and> \<not> isTmp q))
          \<longrightarrow> map_of (files w') q = map_of (files w) q)"
proof (induction fs arbitrary: w)
  case Nil
  then show ?case by auto
next
  case (Cons f fs)
  show ?case
  proof (cases "src = cur \<and> lower f = ''nvda.exe''")
    case True
    then have "copyFilesIn e src dst cur fs w = (r, w')" using Cons.prems by simp
    from Cons.IH [OF this] show ?thesis by auto
  next
    case False
    let ?s = "cur @ [f]"
    let ?d = "dst @ relpath (cur @ [f]) src"
    obtain r1 w1 where r1: "tryCopyFile e ?s ?d w = (r1, w1)" by force
    note f1 = tryCopyFile_frame [OF r1]
    show ?thesis
    proof (cases r1)
      case (Raised err)
      then have "w' = w1" using Cons.prems False r1 by (simp add: Let_def)
      then show ?thesis using f1 False by auto
    next
      case Returned
      then have "copyFilesIn e src dst cur fs w1 = (r, w')"
        using Cons.prems False r1 by (simp add: Let_def)
      note IH = Cons.IH [OF this]
      show ?thesis
      proof (intro conjI ballI allI impI)
        fix c assume "c \<in> set (trace w')"
        with IH f1 False
        show "c \<in> set (trace w) \<or> (\<forall>a b. c \<noteq> CopyFileW a b)
            \<or> (\<exists>f' \<in> set (f # fs). \<not> (src = cur \<and> lower f' = ''nvda.exe'')
                  \<and> c = CopyFileW (cur @ [f']) (dst @ relpath (cur @ [f']) src))"
          by (metis list.set_intros(1) list.set_intros(2))
      next
        fix q
        assume q: "\<forall>f' \<in> set (f # fs). \<not> (src = cur \<and> lower f' = ''nvda.exe'')
              \<longrightarrow> butlast q \<noteq> butlast (dst @ relpath (cur @ [f']) src)
                \<or> (q \<noteq> dst @ relpath (cur @ [f']) src \<and> \<not> isTmp q)"
        then have "map_of (files w') q = map_of (files w1) q" using IH by simp
        moreover have "map_of (files w1) q = map_of (files w) q" using f1 q False by simp
        ultimately show "map_of (files w') q = map_of (files w) q" by simp
      qed
    qed
  qed
qed

lemma copyDirs_frame:
  "copyDirs e src dst entries w = (r, w') \<Longrightarrow>
     (\<forall>c \<in> set (trace w'). c \<in> set (trace w) \<or> (\<forall>a b. c \<noteq> CopyFileW a b)
        \<or> (\<exists>cur sds fs f. (cur, sds, fs) \<in> set entries \<and> f \<in> set fs
              \<and> \<not> (src = cur \<and> lower f = ''nvda.exe'')
              \<and> c = CopyFileW (cur @ [f]) (dst @ relpath (cur @ [f]) src)))
   \<and> (\<forall>q. (\<forall>cur sds fs f. (cur, sds, fs) \<in> set entries \<longrightarrow> f \<in> set fs
              \<longrightarrow> \<not> (src = cur \<and> lower f = ''nvda.exe'')
              \<longrightarrow> butlast q \<noteq> butlast (dst @ relpath (cur @ [f]) src)
                \<or> (q \<noteq> dst @ relpath (cur @ [f]) src \<and> \<not> isTmp q))
          \<longrightarrow> map_of (files w') q = map_of (files w) q)"
proof (induction entries arbitrary: w)
  case Nil
  then show ?case by auto
next
  case (Cons entry entries)
  obtain cur sds fs where entry: "entry = (cur, sds, fs)" by (cases entry) auto
  let ?w1 = "if \<not> isdir w (dst @ relpath cur src) then mkdir_parents (dst @ relpath cur src) w else w"
  have same: "trace ?w1 = trace w" "files ?w1 = files w" by simp_all
  obtain r2 w2 where r2: "copyFilesIn e src dst cur fs ?w1 = (r2, w2)" by force
  note f2 = copyFilesIn_frame [OF r2, unfolded same]
  have f2a: "c \<in> set (trace w) \<or> (\<forall>a b. c \<noteq> CopyFileW a b)
        \<or> (\<exists>cur sds fs f. (cur, sds, fs) \<in> set (entry # entries) \<and> f \<in> set fs
              \<and> \<not> (src = cur \<and> lower f = ''nvda.exe'')
              \<and> c = CopyFileW (cur @ [f]) (dst @ relpath (cur @ [f]) src))"
    if "c \<in> set (trace w2)" for c
  proof -
    from f2 that consider "c \<in> set (trace w)" | "\<forall>a b. c \<noteq> CopyFileW a b"
      | f where "f \<in> set fs" "\<not> (src = cur \<and> lower f = ''nvda.exe'')"
          "c = CopyFileW (cur @ [f]) (dst @ relpath (cur @ [f]) src)"
      by blast
    then show ?thesis
    proof cases
      case 3
      have "(cur, sds, fs) \<in> set (entry # entries)" by (simp add: entry)
      with 3 show ?thesis by blast
    qed simp_all
  qed
  have f2b: "map_of (files w2) q = map_of (files w) q"
    if q: "\<forall>cur sds fs f. (cur, sds, fs) \<in> set (entry # entries) \<longrightarrow> f \<in> set fs
              \<longrightarrow> \<not> (src = cur \<and> lower f = ''nvda.exe'')
              \<longrightarrow> butlast q \<noteq> butlast (dst @ relpath (cur @ [f]) src)
                \<or> (q \<noteq> dst @ relpath (cur @ [f]) src \<and> \<not> isTmp q)" for q
  proof -
    have "(cur, sds, fs) \<in> set (entry # entries)" by (simp add: entry)
    with q have "\<forall>f \<in> set fs. \<not> (src = cur \<and> lower f = ''nvda.exe'')
              \<longrightarrow> butlast q \<noteq> butlast (dst @ relpath (cur @ [f]) src)
                \<or> (q \<noteq> dst @ relpath (cur @ [f]) src \<and> \<not> isTmp q)"
      by blast
    with f2 show ?thesis by blast
  qed
  show ?case
  proof (cases r2)
    case (Raised err)
    then have "w' = w2" using Cons.prems entry r2 by (simp add: Let_def)
    then show ?thesis using f2a f2b by blast
  next
    case Returned
    then have "copyDirs e src dst entries w2 = (r, w')"
      using Cons.prems entry r2 by (simp add: Let_def)
    note IH = Cons.IH [OF this]
    show ?thesis
    proof (intro conjI ballI allI impI)
      fix c assume c: "c \<in> set (trace w')"
      from IH c consider "c \<in> set (trace w2)" | "\<forall>a b. c \<noteq> CopyFileW a b"
        | cur' sds' fs' f where "(cur', sds', fs') \<in> set entries" "f \<in> set fs'"
            "\<not> (src = cur' \<and> lower f = ''nvda.exe'')"
            "c = CopyFileW (cur' @ [f]) (dst @ relpath (cur' @ [f]) src)"
        by blast
      then show "c \<in> set (trace w) \<or> (\<forall>a b. c \<noteq> CopyFileW a b)
        \<or> (\<exists>cur sds fs f. (cur, sds, fs) \<in> set (entry # entries) \<and> f \<in> set fs
              \<and> \<not> (src = cur \<and> lower f = ''nvda.exe'')
              \<and> c = CopyFileW (cur @ [f]) (dst @ relpath (cur @ [f]) src))"
      proof cases
        case 1
        then show ?thesis by (rule f2a)
      next
        case 2
        then show ?thesis by simp
      next
        case 3
        have "(cur', sds', fs') \<in> set (entry # entries)" using 3(1) by simp
        with 3 show ?thesis by blast
      qed
    next
      fix q
      assume q: "\<forall>cur sds fs f. (cur, sds, fs) \<in> set (entry # entries) \<longrightarrow> f \<in> set fs
              \<longrightarrow> \<not> (src = cur \<and> lower f = ''nvda.exe'')
              \<longrightarrow> butlast q \<noteq> butlast (dst @ relpath (cur @ [f]) src)
                \<or> (q \<noteq> dst @ relpath (cur @ [f]) src \<and> \<not> isTmp q)"
      then have "\<forall>cur sds fs f. (cur, sds, fs) \<in> set entries \<longrightarrow> f \<in> set fs
              \<longrightarrow> \<not> (src = cur \<and> lower f = ''nvda.exe'')
              \<longrightarrow> butlast q \<noteq> butlast (dst @ relpath (cur @ [f]) src)
                \<or> (q \<noteq> dst @ relpath (cur @ [f]) src \<and> \<not> isTmp q)"
        by (simp only: list.set) blast
      then have "map_of (files w') q = map_of (files w2) q" using IH by blast
      moreover have "map_of (files w2) q = map_of (files w) q" using q by (rule f2b)
      ultimately show "map_of (files w') q = map_of (files w) q" by simp
    qed
  qed
qed

lemma lower_nvda_exe: "lower ''nvda.exe'' = ''nvda.exe''"
  by (simp add: lower_def lower_char_def)

lemma pickNvdaExe_two:
  "pickNvdaExe e d [a, b] w =
     (if isfile w (d @ [a]) then tryCopyFile e (d @ [a]) (d @ [''nvda.exe'']) w
      else if isfile w (d @ [b]) then tryCopyFile e (d @ [b]) (d @ [''nvda.exe'']) w
      else (Raised RuntimeError, w))"
  by simp


subsection \<open>What the pruning touches\<close>

lemma removeRetries_frame:
  "removeRetries e t iv n u = (ok, u') \<Longrightarrow> t \<notin> set (dirs u) \<Longrightarrow>
     dirs u' = dirs u \<and> (\<forall>q. q \<noteq> t \<longrightarrow> map_of (files u') q = map_of (files u) q)"
proof (induction n arbitrary: u)
  case 0
  then show ?case by simp
next
  case (Suc n)
  obtain ok1 u1 where r1: "os_remove e t u = (ok1, u1)" by force
  note e1 = os_remove_effect [OF r1]
  show ?case
  proof (cases ok1)
    case True
    then have "u' = u1" using Suc.prems r1 by (simp add: isdir_def)
    then show ?thesis using e1 True by simp
  next
    case False
    then have run: "removeRetries e t iv n (time_sleep iv u1) = (ok, u')"
      using Suc.prems r1 by (simp add: isdir_def)
    have "t \<notin> set (dirs (time_sleep iv u1))" using e1 Suc.prems(2) by simp
    from Suc.IH [OF run this] show ?thesis using e1 False by simp
  qed
qed

lemma tryRemoveFile_frame:
  assumes run: "tryRemoveFile e p n iv rb u = (r, u')"
  shows "dirs u' = dirs u
       \<and> (\<forall>q. butlast q \<noteq> butlast p \<longrightarrow> map_of (files u') q = map_of (files u) q)"
proof -
  define t where "t = butlast p @ [freshName u]"
  define u1 where "u1 = u\<lparr>files := AList.update t [] (files u)\<rparr>"
  have nd: "t \<notin> set (dirs u)"
    using fresh_dir_absent [of "butlast p" u "[]"] by (simp add: t_def)
  have r1: "createEmptyTempFileForDeletingFile (butlast p) u = (t, u1)"
    by (simp add: createEmptyTempFileForDeletingFile_def Let_def t_def u1_def)
  have far: "q \<noteq> p \<and> q \<noteq> t" if "butlast q \<noteq> butlast p" for q
    using that by (auto simp: t_def)
  have g1: "dirs u1 = dirs u
       \<and> (\<forall>q. butlast q \<noteq> butlast p \<longrightarrow> map_of (files u1) q = map_of (files u) q)"
    using far by (simp add: u1_def update_conv')
  obtain ok2 u2 where r2: "os_replace e p t u1 = (ok2, u2)" by force
  have g2: "dirs u2 = dirs u
       \<and> (\<forall>q. butlast q \<noteq> butlast p \<longrightarrow> map_of (files u2) q = map_of (files u) q)"
    using os_replace_frame [OF r2] g1 far by simp
  show ?thesis
  proof (cases ok2)
    case False
    then have "u' = u2" using run r1 r2 by (simp add: tryRemoveFile_def Let_def)
    then show ?thesis using g2 by simp
  next
    case True
    obtain ok3 u3 where r3: "removeRetries e t iv (nat n) u2 = (ok3, u3)" by force
    have "t \<notin> set (dirs u2)" using nd g2 by simp
    from removeRetries_frame [OF r3 this]
    have g3: "dirs u3 = dirs u
       \<and> (\<forall>q. butlast q \<noteq> butlast p \<longrightarrow> map_of (files u3) q = map_of (files u) q)"
      using g2 far by simp
    show ?thesis
    proof (cases ok3)
      case ok: True
      then have "u' = u3" using run r1 r2 r3 True by (simp add: tryRemoveFile_def Let_def)
      then show ?thesis using g3 by simp
    next
      case False
      obtain ok4 u4 where r4: "(if rb then moveFileEx e t u3 else (False, u3)) = (ok4, u4)"
        by force
      have g4: "dirs u4 = dirs u
       \<and> (\<forall>q. butlast q \<noteq> butlast p \<longrightarrow> map_of (files u4) q = map_of (files u) q)"
      proof (cases rb)
        case True
        then have "moveFileEx e t u3 = (ok4, u4)" using r4 by simp
        from moveFileEx_frame [OF this] show ?thesis using g3 by simp
      next
        case False
        then show ?thesis using r4 g3 by simp
      qed
      show ?thesis
      proof (cases "rb \<and> ok4")
        case True
        then have "u' = u4"
          using run r1 r2 r3 r4 \<open>ok2\<close> \<open>\<not> ok3\<close> by (simp add: tryRemoveFile_def Let_def)
        then show ?thesis using g4 by simp
      next
        case False
        obtain ok5 u5 where r5: "os_replace e t p u4 = (ok5, u5)" by force
        have "u' = u5"
          using run r1 r2 r3 r4 r5 False \<open>ok2\<close> \<open>\<not> ok3\<close>
          by (auto simp: tryRemoveFile_def Let_def)
        then show ?thesis using os_replace_frame [OF r5] g4 far by simp
      qed
    qed
  qed
qed

lemma os_rmdir_frame:
  "files (snd (os_rmdir e d u)) = files u"
  "c \<noteq> d \<Longrightarrow> c \<in> set (dirs u) \<Longrightarrow> c \<in> set (dirs (snd (os_rmdir e d u)))"
  by (simp_all add: os_rmdir_def attempt_def Let_def)

lemma keepsDir_refl: "keepsDir c u u"
  by (simp add: keepsDir_def)

lemma keepsDir_trans: "keepsDir c u u' \<Longrightarrow> keepsDir c u' u'' \<Longrightarrow> keepsDir c u u''"
  by (simp add: keepsDir_def)

lemma removeLibFile_keeps:
  assumes "parent \<noteq> c"
  shows "keepsDir c u (removeLibFile e rb parent f u)"
proof -
  obtain r u' where run: "tryRemoveFile e (parent @ [f]) 2 500 rb u = (r, u')" by force
  from tryRemoveFile_frame [OF run] assms
  show ?thesis by (simp add: keepsDir_def removeLibFile_def run isdir_def)
qed

lemma removeLibSubdir_keeps:
  assumes "parent @ [d] = cur \<or> parent @ [d] \<noteq> c"
  shows "keepsDir c u (removeLibSubdir e cur parent d u)"
  using assms os_rmdir_frame [where e = e and d = "parent @ [d]" and u = u]
  by (auto simp: keepsDir_def removeLibSubdir_def Let_def isdir_def)

lemma fold_keeps:
  assumes "\<And>x u. x \<in> set xs \<Longrightarrow> keepsDir c u (step x u)"
  shows "keepsDir c u (fold step xs u)"
  using assms
proof (induction xs arbitrary: u)
  case Nil
  then show ?case by (simp add: keepsDir_refl)
next
  case (Cons x xs)
  have "keepsDir c u (step x u)" using Cons.prems by simp
  moreover have "keepsDir c (step x u) (fold step xs (step x u))"
    using Cons.prems by (intro Cons.IH) simp
  ultimately show ?case by (simp add: keepsDir_trans [of c u "step x u"])
qed

lemma removeLibEntry_keeps:
  assumes "parent = cur \<or> (parent \<noteq> c \<and> (\<forall>d \<in> set sds. parent @ [d] = cur \<or> parent @ [d] \<noteq> c))"
  shows "keepsDir c u (removeLibEntry e cur rb (parent, sds, fs) u)"
proof (cases "parent = cur")
  case True
  then show ?thesis by (simp add: removeLibEntry_def keepsDir_refl)
next
  case False
  with assms have pc: "parent \<noteq> c"
    and sd: "\<forall>d \<in> set sds. parent @ [d] = cur \<or> parent @ [d] \<noteq> c" by auto
  let ?u1 = "fold (removeLibSubdir e cur parent) sds u"
  have k1: "keepsDir c u ?u1"
    using sd by (intro fold_keeps removeLibSubdir_keeps) simp
  have k2: "keepsDir c ?u1 (fold (removeLibFile e rb parent) fs ?u1)"
    using pc by (intro fold_keeps removeLibFile_keeps)
  show ?thesis
    using keepsDir_trans [OF k1 k2] False by (simp add: removeLibEntry_def)
qed

lemma removeOldLibDir_keeps:
  "keepsDir (destPath @ [topDir, version]) u
     (removeOldLibDir e destPath version rb topDir' u)"
proof -
  let ?c = "destPath @ [topDir, version]"
  let ?cur = "destPath @ [topDir', version]"
  have entry: "keepsDir ?c u' (removeLibEntry e ?cur rb x u')"
    if x: "x \<in> set (os_walk u False (destPath @ [topDir']))" for x u'
  proof -
    obtain parent sds fs where px: "x = (parent, sds, fs)" by (cases x) auto
    have under: "prefix (destPath @ [topDir']) parent"
      using os_walk_under x unfolding px by blast
    have cond: "parent = ?cur \<or> (parent \<noteq> ?c \<and> (\<forall>d \<in> set sds. parent @ [d] = ?cur \<or> parent @ [d] \<noteq> ?c))"
    proof (cases "topDir' = topDir")
      case True
      then show ?thesis by auto
    next
      case False
      have no: "\<not> prefix (destPath @ [topDir']) ?c" using False by simp
      have "parent \<noteq> ?c" using under no by auto
      moreover have "parent @ [d] \<noteq> ?c" for d
      proof
        assume "parent @ [d] = ?c"
        moreover have "prefix (destPath @ [topDir']) (parent @ [d])"
          using under by (simp add: prefix_prefix)
        ultimately show False using no by simp
      qed
      ultimately show ?thesis by simp
    qed
    show ?thesis unfolding px using cond by (rule removeLibEntry_keeps)
  qed
  show ?thesis
    unfolding removeOldLibDir_def Let_def
    using entry by (simp add: fold_keeps)
qed

lemma removeOldLibFiles_keeps:
  "keepsDir (destPath @ [topDir, version]) w (removeOldLibFiles e destPath version rb w)"
  unfolding removeOldLibFiles_def
  by (intro fold_keeps removeOldLibDir_keeps)

subsection \<open>Claims\<close>

lemmas store_evals =
  exists_path_def isfile_def isdir_def attempt_def os_remove_def os_replace_def sh_copyfile_def
  copyFileW_def moveFileEx_def sh_rmtree_def os_rmdir_def time_sleep_def pathSize_def
  freshName_def createEmptyTempFileForDeletingFile_def mkdtemp_def mkdir_parents_def Let_def

lemmas group_evals =
  deleteFileGroupOrFail_def revertGroupDelete_def revertOne_def rglob_def scratchDir_def

text \<open>
  C1, as the code has it. Let the install directory exist, the directory for temporary
  files lie outside it, no member of the group be a directory, and let the only calls
  that can fail be deletions of files in the install directory (so staging, cleaning and
  every rename back succeed). Then \<^verbatim>\<open>_deleteFileGroupOrFail\<close> ends in one of two states:
  it returns and every file of the group is gone while every other file is as it was, or
  it raises \<^verbatim>\<open>RetriableFailure\<close> and every file is where it was with the content it had.
  In both the scratch directory and everything below it is gone. When a member of the
  group exists and can never be deleted, the second state is the one reached.
\<close>

theorem group_delete_all_or_nothing:
  assumes root: "isdir w installDir"
    and tmp: "\<not> prefix installDir tmpRoot"
    and members: "\<forall>fp \<in> set fps. \<not> isdir w (installDir @ fp)"
    and env: "\<forall>c k. e c k \<longrightarrow> (\<exists>x. c = OsRemove (installDir @ x))"
    and run: "deleteFileGroupOrFail e tmpRoot installDir fps numTries iv w = (r, w')"
  shows "((r = Returned
            \<and> (\<forall>fp \<in> set fps. \<not> isfile w' (installDir @ fp))
            \<and> (\<forall>p. p \<notin> (\<lambda>fp. installDir @ fp) ` set fps
                   \<longrightarrow> map_of (files w') p = map_of (files w) p))
          \<or> (r = Raised RetriableFailure \<and> map_of (files w') = map_of (files w)))
       \<and> (\<forall>p. prefix (scratchDir tmpRoot w) p \<longrightarrow> \<not> exists_path w' p)
       \<and> ((\<exists>fp \<in> set fps. isfile w (installDir @ fp) \<and> (\<forall>k. e (OsRemove (installDir @ fp)) k))
            \<longrightarrow> r = Raised RetriableFailure)"
proof -
  let ?D = "tmpRoot @ [freshName w]"
  let ?I = installDir
  let ?m0 = "map_of (files w)"
  let ?w1 = "w\<lparr>dirs := dirs w @ [?D]\<rparr>"
  have D: "scratchDir tmpRoot w = ?D" by (simp add: scratchDir_def mkdtemp_def Let_def)
  have inc: "\<forall>x y. ?I @ x \<noteq> ?D @ y" using scratch_apart [OF root tmp] by blast
  have fresh0: "\<forall>p. prefix ?D p \<longrightarrow> ?m0 p = None"
    using fresh_file_absent_under [of w tmpRoot] by (auto simp: prefix_def)
  obtain u2 where loop: "deleteGroupLoop e ?D ?I numTries iv fps ?w1 = (r, u2)"
    and fin: "w' = snd (sh_rmtree e ?D u2)"
    using run by (auto simp: deleteFileGroupOrFail_def mkdtemp_def Let_def split: prod.splits)
  have F1: "map_of (files ?w1) = stagedStore ?D ?I ?m0 {}"
    using stagedStore_empty [OF fresh0] by simp
  have nil: "[] \<notin> set fps" using members root by auto
  have dirs1: "\<forall>x \<in> set fps. ?I @ x \<notin> set (dirs ?w1)"
    using members inc by (auto simp: isdir_def)
  from deleteGroupLoop_staged [OF env inc F1 _ _ dirs1 nil loop]
  have sub: "set (dirs ?w1) \<subseteq> set (dirs u2)"
    and alt: "(r = Returned \<and>
                 map_of (files u2) = stagedStore ?D ?I ?m0 {x \<in> set fps. ?m0 (?I @ x) \<noteq> None})
              \<or> (r = Raised RetriableFailure \<and>
                 (\<forall>p. map_of (files u2) p = (if prefix ?D p then None else ?m0 p)))"
    by auto
  have Din: "?D \<in> set (dirs u2)" using sub by auto
  have nblock: "\<not> e (ShRmtree ?D) (made u2 (ShRmtree ?D))" using env by auto
  have files': "map_of (files w') p = (if prefix ?D p then None else map_of (files u2) p)" for p
    unfolding fin using Din nblock by (simp add: sh_rmtree_unfold map_of_filter_key)
  have dirs': "set (dirs w') = {d \<in> set (dirs u2). \<not> prefix ?D d}"
    unfolding fin using Din nblock by (auto simp: sh_rmtree_unfold)
  have gone: "\<forall>p. prefix ?D p \<longrightarrow> \<not> exists_path w' p"
    using files' dirs' by (auto simp: exists_path_def isfile_def isdir_def)
  have undel: "(\<exists>fp \<in> set fps. isfile w (?I @ fp) \<and> (\<forall>k. e (OsRemove (?I @ fp)) k))
            \<longrightarrow> r \<noteq> Returned"
  proof
    assume "\<exists>fp \<in> set fps. isfile w (?I @ fp) \<and> (\<forall>k. e (OsRemove (?I @ fp)) k)"
    then obtain fp where fp: "fp \<in> set fps" "isfile w (?I @ fp)" "\<forall>k. e (OsRemove (?I @ fp)) k"
      by blast
    have pres: "map_of (files ?w1) (?I @ fp) \<noteq> None" using fp(2) by (simp add: isfile_def)
    have "fst (deleteGroupLoop e ?D ?I numTries iv fps ?w1) \<noteq> Returned"
      using fp(3) fp(1) pres
      by (rule deleteGroupLoop_undeletable [where e = e and I = ?I and x = fp])
    then show "r \<noteq> Returned" using loop by simp
  qed
  have main: "(r = Returned
            \<and> (\<forall>fp \<in> set fps. \<not> isfile w' (?I @ fp))
            \<and> (\<forall>p. p \<notin> (\<lambda>fp. ?I @ fp) ` set fps \<longrightarrow> map_of (files w') p = ?m0 p))
          \<or> (r = Raised RetriableFailure \<and> map_of (files w') = ?m0)"
    using alt
  proof
    assume a: "r = Returned \<and>
                 map_of (files u2) = stagedStore ?D ?I ?m0 {x \<in> set fps. ?m0 (?I @ x) \<noteq> None}"
    have nD: "\<not> prefix ?D (?I @ x)" for x using inc by (auto simp: prefix_def)
    have m1: "\<not> isfile w' (?I @ fp)" if "fp \<in> set fps" for fp
      using that a by (auto simp: isfile_def files' nD stagedStore_simps(2) [OF inc])
    have m2: "map_of (files w') p = ?m0 p" if "p \<notin> (\<lambda>fp. ?I @ fp) ` set fps" for p
      using that a fresh0 by (auto simp: files' stagedStore_def)
    show ?thesis using a m1 m2 by blast
  next
    assume b: "r = Raised RetriableFailure \<and>
                 (\<forall>p. map_of (files u2) p = (if prefix ?D p then None else ?m0 p))"
    have "map_of (files w') p = ?m0 p" for p
      using b fresh0 by (simp add: files')
    then show ?thesis using b by auto
  qed
  show ?thesis
    unfolding D using main gone undel by blast
qed

theorem group_delete_all_or_nothing_witness:
  "isdir exStore [''i''] \<and> \<not> prefix [''i''] [''t'']
   \<and> fst (deleteFileGroupOrFail envLockB [''t''] [''i''] [[''a''], [''b'']] 6 500 exStore)
       = Raised RetriableFailure
   \<and> map_of (files (snd (deleteFileGroupOrFail envLockB [''t''] [''i''] [[''a''], [''b'']] 6 500 exStore)))
       = map_of (files exStore)
   \<and> \<not> exists_path (snd (deleteFileGroupOrFail envLockB [''t''] [''i''] [[''a''], [''b'']] 6 500 exStore))
         (scratchDir [''t''] exStore)"
proof -
  let ?X = "deleteFileGroupOrFail envLockB [''t''] [''i''] [[''a''], [''b'']] 6 500 exStore"
  have h1: "isdir exStore [''i'']" by (simp add: isdir_def exStore_def)
  have h2: "\<not> prefix [''i''] [''t'']" by simp
  have h3: "\<forall>fp \<in> set [[''a''], [''b'']]. \<not> isdir exStore ([''i''] @ fp)"
    by (simp add: isdir_def exStore_def)
  have h4: "\<forall>c k. envLockB c k \<longrightarrow> (\<exists>x. c = OsRemove ([''i''] @ x))"
    by (simp add: envLockB_def)
  have run: "?X = (fst ?X, snd ?X)" by simp
  have lock: "\<exists>fp \<in> set [[''a''], [''b'']]. isfile exStore ([''i''] @ fp)
                \<and> (\<forall>k. envLockB (OsRemove ([''i''] @ fp)) k)"
    by (simp add: envLockB_def isfile_def exStore_def)
  note t = group_delete_all_or_nothing [OF h1 h2 h3 h4 run]
  from t lock have r: "fst ?X = Raised RetriableFailure" by blast
  with t have same: "map_of (files (snd ?X)) = map_of (files exStore)" by simp
  from t have "\<not> exists_path (snd ?X) (scratchDir [''t''] exStore)" by blast
  with h1 h2 r same show ?thesis by blast
qed

text \<open>
  C1 as stated fails: when the one rename that brings a staged file back fails, the
  failure is logged and the call ends with \<open>a\<close> gone and \<open>b\<close> in place.
\<close>

theorem group_delete_partial_counterexample:
  "fst (deleteFileGroupOrFail envLockBNoRename [''t''] [''i''] [[''a''], [''b'']] 2 0 exStore)
     = Raised RetriableFailure
   \<and> isfile exStore [''i'', ''a'']
   \<and> \<not> isfile (snd (deleteFileGroupOrFail envLockBNoRename [''t''] [''i''] [[''a''], [''b'']] 2 0
                      exStore)) [''i'', ''a'']
   \<and> isfile (snd (deleteFileGroupOrFail envLockBNoRename [''t''] [''i''] [[''a''], [''b'']] 2 0
                    exStore)) [''i'', ''b'']"
  by (simp add: store_evals group_evals exStore_def envLockBNoRename_def numeral_2_eq_2)

text \<open>
  C2, as the code has it. A rename back that fails in \<^verbatim>\<open>_revertGroupDelete\<close> is logged and
  nothing else: the outcome of \<^verbatim>\<open>_deleteFileGroupOrFail\<close> is the same in two environments
  that differ only in which renames fail, so the result does not tell a failed rollback
  from a rollback that worked.
\<close>

theorem restore_failure_not_reported:
  assumes "\<forall>c k. (\<forall>a b. c \<noteq> OsReplace a b) \<longrightarrow> e c k = e' c k"
  shows "fst (deleteFileGroupOrFail e tmpRoot installDir fps numTries iv w)
       = fst (deleteFileGroupOrFail e' tmpRoot installDir fps numTries iv w)"
  using agree_deleteGroupLoop [OF assms]
  by (simp add: deleteFileGroupOrFail_def Let_def split_beta)

theorem restore_failure_not_reported_witness:
  "fst (deleteFileGroupOrFail envLockBNoRename [''t''] [''i''] [[''a''], [''b'']] 6 500 exStore)
   = fst (deleteFileGroupOrFail envLockB [''t''] [''i''] [[''a''], [''b'']] 6 500 exStore)"
proof -
  have agree: "\<forall>c k. (\<forall>a b. c \<noteq> OsReplace a b) \<longrightarrow> envLockBNoRename c k = envLockB c k"
  proof (intro allI impI)
    fix c :: syscall and k :: nat
    assume "\<forall>a b. c \<noteq> OsReplace a b"
    then show "envLockBNoRename c k = envLockB c k"
      by (cases c) (auto simp: envLockBNoRename_def envLockB_def)
  qed
  show ?thesis by (rule restore_failure_not_reported [OF agree])
qed

text \<open>
  C2 as stated fails: with \<open>b\<close> locked, the call raises \<^verbatim>\<open>RetriableFailure\<close> when the
  rename that restores \<open>a\<close> fails and \<open>a\<close> stays missing, exactly as it does when the
  rename succeeds and \<open>a\<close> is back.
\<close>

theorem failed_rollback_same_result_counterexample:
  "fst (deleteFileGroupOrFail envLockBNoRename [''t''] [''i''] [[''a''], [''b'']] 1 0 exStore)
     = Raised RetriableFailure
   \<and> \<not> isfile (snd (deleteFileGroupOrFail envLockBNoRename [''t''] [''i''] [[''a''], [''b'']] 1 0
                      exStore)) [''i'', ''a'']
   \<and> fst (deleteFileGroupOrFail envLockB [''t''] [''i''] [[''a''], [''b'']] 1 0 exStore)
     = Raised RetriableFailure
   \<and> isfile (snd (deleteFileGroupOrFail envLockB [''t''] [''i''] [[''a''], [''b'']] 1 0
                    exStore)) [''i'', ''a'']"
  by (simp add: store_evals group_evals exStore_def envLockBNoRename_def envLockB_def)

text \<open>
  C3. With three tries and no wait, a file whose deletion fails on the first two attempts
  and succeeds on the third is removed, the call returns, and exactly three calls of
  \<^verbatim>\<open>os.remove\<close> are made, all on that file. This holds for \<^verbatim>\<open>tryRemoveFile\<close>, which
  deletes the placeholder the file was renamed to, and for \<^verbatim>\<open>_deleteFileGroupOrFail\<close> on
  a group of one file, which deletes the file itself.
\<close>

theorem retry_bound:
  "(isfile w path
      \<and> succeedsNext e w (OsReplace path (placeholder path w))
      \<and> failsTwiceThenSucceeds e w (OsRemove (placeholder path w))
    \<longrightarrow> fst (tryRemoveFile e path 3 0 rebootOK w) = Returned
      \<and> osRemoveCalls (snd (tryRemoveFile e path 3 0 rebootOK w))
          = osRemoveCalls w @ replicate 3 (placeholder path w)
      \<and> \<not> isfile (snd (tryRemoveFile e path 3 0 rebootOK w)) path
      \<and> \<not> isfile (snd (tryRemoveFile e path 3 0 rebootOK w)) (placeholder path w))
   \<and> (isfile w (installDir @ fp)
      \<and> succeedsNext e w (ShCopyfile (installDir @ fp) (scratchDir tmpRoot w @ fp))
      \<and> failsTwiceThenSucceeds e w (OsRemove (installDir @ fp))
    \<longrightarrow> fst (deleteFileGroupOrFail e tmpRoot installDir [fp] 3 0 w) = Returned
      \<and> osRemoveCalls (snd (deleteFileGroupOrFail e tmpRoot installDir [fp] 3 0 w))
          = osRemoveCalls w @ replicate 3 (installDir @ fp)
      \<and> \<not> isfile (snd (deleteFileGroupOrFail e tmpRoot installDir [fp] 3 0 w)) (installDir @ fp))"
  using tryRemoveFile_third_attempt [of w path e rebootOK]
    group_third_attempt [of w installDir fp e tmpRoot]
  unfolding succeedsNext_def failsTwiceThenSucceeds_def placeholder_def
  by blast

theorem retry_bound_witness:
  "fst (tryRemoveFile envFailTwice [''i'', ''a''] 3 0 False exStore) = Returned
   \<and> osRemoveCalls (snd (tryRemoveFile envFailTwice [''i'', ''a''] 3 0 False exStore))
       = replicate 3 (placeholder [''i'', ''a''] exStore)
   \<and> fst (deleteFileGroupOrFail envFailTwice [''t''] [''i''] [[''a'']] 3 0 exStore) = Returned
   \<and> osRemoveCalls (snd (deleteFileGroupOrFail envFailTwice [''t''] [''i''] [[''a'']] 3 0 exStore))
       = replicate 3 [''i'', ''a'']"
proof -
  have a1: "isfile exStore [''i'', ''a'']" by (simp add: isfile_def exStore_def)
  have a2: "succeedsNext envFailTwice exStore (OsReplace x y)"
    "succeedsNext envFailTwice exStore (ShCopyfile x y)" for x y
    by (simp_all add: succeedsNext_def envFailTwice_def)
  have a3: "failsTwiceThenSucceeds envFailTwice exStore (OsRemove p)" for p
    by (simp add: failsTwiceThenSucceeds_def envFailTwice_def made_def exStore_def)
  have a4: "isfile exStore ([''i''] @ [''a''])" by (simp add: isfile_def exStore_def)
  have none: "osRemoveCalls exStore = []" by (simp add: osRemoveCalls_def exStore_def)
  from retry_bound [of exStore "[''i'', ''a'']" envFailTwice False "[''i'']" "[''a'']" "[''t'']"]
    a1 a2 a3 a4 none
  show ?thesis by simp
qed

text \<open>
  C4, as the code has it. \<^verbatim>\<open>tryRemoveFile\<close> with \<^verbatim>\<open>rebootOK=True\<close> on a file that is
  renamed to its placeholder but whose deletion fails on every attempt, the registration
  itself not failing: the call returns, \<^verbatim>\<open>moveFileEx\<close> is called exactly once, on the
  placeholder, which is registered for deletion at the next restart, and the file is no
  longer at its original path.
\<close>

theorem deferred_fallback:
  assumes "isfile w path"
    and "succeedsNext e w (OsReplace path (placeholder path w))"
    and "failsAlways e (OsRemove (placeholder path w))"
    and "succeedsNext e w (MoveFileEx (placeholder path w))"
  shows "fst (tryRemoveFile e path numRetries iv True w) = Returned
       \<and> moveFileExCalls (snd (tryRemoveFile e path numRetries iv True w))
           = moveFileExCalls w @ [placeholder path w]
       \<and> rebootDeletes (snd (tryRemoveFile e path numRetries iv True w))
           = rebootDeletes w @ [placeholder path w]
       \<and> \<not> isfile (snd (tryRemoveFile e path numRetries iv True w)) path"
  using assms tryRemoveFile_deferred_aux [of w path e numRetries iv]
  unfolding succeedsNext_def failsAlways_def placeholder_def
  by blast

theorem deferred_fallback_witness:
  "isfile exStore [''i'', ''a'']
   \<and> fst (tryRemoveFile envNoDelete [''i'', ''a''] 6 500 True exStore) = Returned
   \<and> moveFileExCalls (snd (tryRemoveFile envNoDelete [''i'', ''a''] 6 500 True exStore))
       = [placeholder [''i'', ''a''] exStore]
   \<and> rebootDeletes (snd (tryRemoveFile envNoDelete [''i'', ''a''] 6 500 True exStore))
       = [placeholder [''i'', ''a''] exStore]
   \<and> \<not> isfile (snd (tryRemoveFile envNoDelete [''i'', ''a''] 6 500 True exStore)) [''i'', ''a'']"
proof -
  have a1: "isfile exStore [''i'', ''a'']" by (simp add: isfile_def exStore_def)
  have a2: "succeedsNext envNoDelete exStore (OsReplace x y)"
    "succeedsNext envNoDelete exStore (MoveFileEx x)" for x y
    by (simp_all add: succeedsNext_def envNoDelete_def)
  have a3: "failsAlways envNoDelete (OsRemove p)" for p
    by (simp add: failsAlways_def envNoDelete_def)
  have none: "moveFileExCalls exStore = []" "rebootDeletes exStore = []"
    by (simp_all add: moveFileExCalls_def exStore_def)
  from deferred_fallback [OF a1 a2(1) a3 a2(2), of 6 500] a1 none
  show ?thesis by simp
qed

text \<open>
  C4 as stated fails: with the rename succeeding, every deletion failing and
  \<^verbatim>\<open>rebootOK=True\<close>, a registration that fails makes the call rename the placeholder back
  and raise \<^verbatim>\<open>RetriableFailure\<close>; the file is at its original path again.
\<close>

theorem deferred_registration_fails_counterexample:
  "isfile exStore [''i'', ''a'']
   \<and> fst (tryRemoveFile envNoDeleteNoDefer [''i'', ''a''] 2 0 True exStore)
       = Raised RetriableFailure
   \<and> trace (snd (tryRemoveFile envNoDeleteNoDefer [''i'', ''a''] 2 0 True exStore))
       = [OsReplace [''i'', ''a''] [''i'', ''tmp_______''],
          OsRemove [''i'', ''tmp_______''], TimeSleep 0,
          OsRemove [''i'', ''tmp_______''], TimeSleep 0,
          MoveFileEx [''i'', ''tmp_______''],
          OsReplace [''i'', ''tmp_______''] [''i'', ''a'']]
   \<and> isfile (snd (tryRemoveFile envNoDeleteNoDefer [''i'', ''a''] 2 0 True exStore))
       [''i'', ''a'']"
  by (simp add: tryRemoveFile_def store_evals exStore_def envNoDeleteNoDefer_def
      numeral_2_eq_2)

text \<open>
  C5, as the code has it. When every attempt to delete the placeholder has failed and the
  deletion is not deferred (\<^verbatim>\<open>rebootOK\<close> is false, or the registration fails),
  \<^verbatim>\<open>tryRemoveFile\<close> renames the placeholder back as its last call and raises
  \<^verbatim>\<open>RetriableFailure\<close>, the exception it also raises when the first rename fails; nothing
  is registered for deletion, and when the rename back succeeds every file is where it was
  with the content it had.
\<close>

theorem exhausted_restores:
  assumes "isfile w path"
    and "succeedsNext e w (OsReplace path (placeholder path w))"
    and "failsAlways e (OsRemove (placeholder path w))"
    and "rebootOK \<longrightarrow> \<not> succeedsNext e w (MoveFileEx (placeholder path w))"
  shows "fst (tryRemoveFile e path numRetries iv rebootOK w) = Raised RetriableFailure
       \<and> last (trace (snd (tryRemoveFile e path numRetries iv rebootOK w)))
           = OsReplace (placeholder path w) path
       \<and> rebootDeletes (snd (tryRemoveFile e path numRetries iv rebootOK w)) = rebootDeletes w
       \<and> (succeedsNext e w (OsReplace (placeholder path w) path)
            \<longrightarrow> map_of (files (snd (tryRemoveFile e path numRetries iv rebootOK w)))
                = map_of (files w))
       \<and> (\<not> succeedsNext e' w (OsReplace path (placeholder path w))
            \<longrightarrow> fst (tryRemoveFile e' path numRetries iv rebootOK w) = Raised RetriableFailure)"
proof -
  have first: "fst (tryRemoveFile e' path numRetries iv rebootOK w) = Raised RetriableFailure"
    if "\<not> succeedsNext e' w (OsReplace path (placeholder path w))"
    using that
    by (simp add: tryRemoveFile_def createEmptyTempFileForDeletingFile_def Let_def
        os_replace_unfold succeedsNext_def placeholder_def split: option.splits)
  show ?thesis
    using assms first tryRemoveFile_exhausted_aux [of w path e rebootOK numRetries iv]
    unfolding succeedsNext_def failsAlways_def placeholder_def
    by simp
qed

theorem exhausted_restores_witness:
  "isfile exStore [''i'', ''a'']
   \<and> fst (tryRemoveFile envNoDeleteNoDefer [''i'', ''a''] 6 500 True exStore)
       = Raised RetriableFailure
   \<and> map_of (files (snd (tryRemoveFile envNoDeleteNoDefer [''i'', ''a''] 6 500 True exStore)))
       = map_of (files exStore)
   \<and> rebootDeletes (snd (tryRemoveFile envNoDeleteNoDefer [''i'', ''a''] 6 500 True exStore)) = []"
proof -
  have a1: "isfile exStore [''i'', ''a'']" by (simp add: isfile_def exStore_def)
  have a2: "succeedsNext envNoDeleteNoDefer exStore (OsReplace x y)" for x y
    by (simp add: succeedsNext_def envNoDeleteNoDefer_def)
  have a3: "failsAlways envNoDeleteNoDefer (OsRemove p)" for p
    by (simp add: failsAlways_def envNoDeleteNoDefer_def)
  have a4: "True \<longrightarrow> \<not> succeedsNext envNoDeleteNoDefer exStore (MoveFileEx p)" for p
    by (simp add: succeedsNext_def envNoDeleteNoDefer_def)
  have none: "rebootDeletes exStore = []" by (simp add: exStore_def)
  from exhausted_restores [OF a1 a2 a3 a4, of 6 500] a1 a2 none
  show ?thesis by simp
qed

text \<open>
  C5 as stated fails: the outcome of exhausted retries is \<^verbatim>\<open>RetriableFailure\<close>, not an
  outcome distinct from it; a failed first rename has the same outcome.
\<close>

theorem exhausted_is_retriable_counterexample:
  "fst (tryRemoveFile envNoDelete [''i'', ''a''] 2 0 False exStore) = Raised RetriableFailure
   \<and> fst (tryRemoveFile envNoRename [''i'', ''a''] 2 0 False exStore) = Raised RetriableFailure
   \<and> osRemoveCalls (snd (tryRemoveFile envNoDelete [''i'', ''a''] 2 0 False exStore))
       = [placeholder [''i'', ''a''] exStore, placeholder [''i'', ''a''] exStore]
   \<and> osRemoveCalls (snd (tryRemoveFile envNoRename [''i'', ''a''] 2 0 False exStore)) = []"
  by (simp add: tryRemoveFile_def store_evals exStore_def envNoDelete_def envNoRename_def
      osRemoveCalls_def placeholder_def numeral_2_eq_2)

text \<open>
  C6, as the code has it. When the first copy of \<^verbatim>\<open>tryCopyFile\<close> fails and the destination
  is there, no deletion is attempted and \<^verbatim>\<open>tryRemoveFile\<close> is not called. The destination
  is renamed to a fresh placeholder in its directory; when that rename fails, the call
  raises \<^verbatim>\<open>RetriableFailure\<close> and the copy is not retried. Otherwise the placeholder is
  registered for deletion at the next restart at once; when the registration fails, the
  call raises \<^verbatim>\<open>OSError\<close> and the copy is not retried. Otherwise the copy is made once
  more, and only once: the call returns when that copy succeeds, and the destination then
  holds a file, and raises \<^verbatim>\<open>OSError\<close> when it fails.
\<close>

theorem copy_fallback_calls:
  assumes first: "\<not> fst (copyFileW e src dst w)"
    and there: "exists_path w dst"
  shows "osRemoveCalls (snd (tryCopyFile e src dst w)) = osRemoveCalls w
       \<and> (if \<not> (isfile w dst \<and> succeedsNext e w (OsReplace dst (placeholder dst w)))
          then fst (tryCopyFile e src dst w) = Raised RetriableFailure
             \<and> trace (snd (tryCopyFile e src dst w))
                 = trace w @ [CopyFileW src dst, OsReplace dst (placeholder dst w)]
          else if \<not> succeedsNext e w (MoveFileEx (placeholder dst w))
          then fst (tryCopyFile e src dst w) = Raised OSError
             \<and> trace (snd (tryCopyFile e src dst w))
                 = trace w @ [CopyFileW src dst, OsReplace dst (placeholder dst w),
                              MoveFileEx (placeholder dst w)]
          else trace (snd (tryCopyFile e src dst w))
                 = trace w @ [CopyFileW src dst, OsReplace dst (placeholder dst w),
                              MoveFileEx (placeholder dst w), CopyFileW src dst]
             \<and> fst (tryCopyFile e src dst w)
                 = (if isfile (snd (tryCopyFile e src dst w)) dst then Returned
                    else Raised OSError)
             \<and> (e (CopyFileW src dst) (Suc (made w (CopyFileW src dst)))
                  \<longrightarrow> fst (tryCopyFile e src dst w) = Raised OSError)
             \<and> (isfile w src \<and> src \<noteq> dst
                  \<and> \<not> e (CopyFileW src dst) (Suc (made w (CopyFileW src dst)))
                  \<longrightarrow> fst (tryCopyFile e src dst w) = Returned))"
proof -
  define t where "t = butlast dst @ [freshName w]"
  have ph: "placeholder dst w = t" by (simp add: placeholder_def t_def)
  define w1 where "w1 = w\<lparr>trace := trace w @ [CopyFileW src dst]\<rparr>"
  have r1: "copyFileW e src dst w = (False, w1)"
    using first by (auto simp: copyFileW_unfold w1_def split: option.splits if_splits)
  have ex1: "exists_path w1 dst"
    using there by (simp add: exists_path_def isfile_def isdir_def w1_def)
  have fn1: "freshName w1 = freshName w" by (simp add: freshName_def w1_def)
  define w2 where "w2 = w1\<lparr>files := AList.update t [] (files w1)\<rparr>"
  have r2: "createEmptyTempFileForDeletingFile (butlast dst) w1 = (t, w2)"
    by (simp add: createEmptyTempFileForDeletingFile_def Let_def fn1 t_def w2_def)
  have fr: "map_of (files w) t = None" unfolding t_def by (rule fresh_file_absent)
  have nd: "t \<notin> set (dirs w)"
    using fresh_dir_absent [of "butlast dst" w "[]"] by (simp add: t_def)
  have dt: "dst \<noteq> t"
    using there fr nd by (auto simp: exists_path_def isfile_def isdir_def)
  have f2: "map_of (files w2) dst = map_of (files w) dst"
    using dt by (simp add: w2_def w1_def update_conv')
  have m2: "made w2 (OsReplace dst t) = made w (OsReplace dst t)"
    by (simp add: made_def w2_def w1_def)
  have norm: "osRemoveCalls (u\<lparr>trace := trace w @ cs\<rparr>) = osRemoveCalls w"
    if "\<forall>c \<in> set cs. \<forall>p. c \<noteq> OsRemove p" for u :: world and cs
  proof -
    have "concat (map (\<lambda>c. case c of OsRemove p \<Rightarrow> [p] | _ \<Rightarrow> []) cs) = []"
      using that by (induction cs) (auto split: syscall.splits)
    then show ?thesis by (simp add: osRemoveCalls_def)
  qed
  show ?thesis
  proof (cases "isfile w dst \<and> succeedsNext e w (OsReplace dst t)")
    case False
    define w3 where "w3 = w2\<lparr>trace := trace w2 @ [OsReplace dst t]\<rparr>"
    have r3: "os_replace e dst t w2 = (False, w3)"
      using False
      by (auto simp: os_replace_unfold f2 m2 w3_def isfile_def succeedsNext_def
          split: option.splits)
    have res: "tryCopyFile e src dst w = (Raised RetriableFailure, w3)"
      unfolding tryCopyFile_def Let_def by (simp only: r1 r2 r3 split_conv ex1) simp
    have tr: "trace w3 = trace w @ [CopyFileW src dst, OsReplace dst t]"
      by (simp add: w3_def w2_def w1_def)
    have "w3 = w3\<lparr>trace := trace w @ [CopyFileW src dst, OsReplace dst t]\<rparr>"
      using tr by simp
    then have "osRemoveCalls w3 = osRemoveCalls w"
      using norm [of "[CopyFileW src dst, OsReplace dst t]" w3] by simp
    then show ?thesis using False tr by (simp add: res ph)
  next
    case True
    then obtain cd where cd: "map_of (files w) dst = Some cd"
      and ren: "\<not> e (OsReplace dst t) (made w (OsReplace dst t))"
      by (auto simp: isfile_def succeedsNext_def)
    define w3 where "w3 = w2\<lparr>trace := trace w2 @ [OsReplace dst t],
                            files := AList.update t cd (AList.delete dst (files w2))\<rparr>"
    have r3: "os_replace e dst t w2 = (True, w3)"
      using cd ren by (simp add: os_replace_unfold f2 m2 w3_def)
    have ex3: "exists_path w3 t"
      by (simp add: exists_path_def isfile_def w3_def update_conv')
    have m3: "made w3 (MoveFileEx t) = made w (MoveFileEx t)"
      by (simp add: made_def w3_def w2_def w1_def)
    have f3: "map_of (files w3) = ((map_of (files w))(dst := None))(t \<mapsto> cd)"
      by (auto simp: w3_def w2_def w1_def update_conv' delete_conv' fun_eq_iff)
    show ?thesis
    proof (cases "succeedsNext e w (MoveFileEx t)")
      case False
      define w4 where "w4 = w3\<lparr>trace := trace w3 @ [MoveFileEx t]\<rparr>"
      have r4: "moveFileEx e t w3 = (False, w4)"
        using False by (simp add: moveFileEx_unfold m3 w4_def succeedsNext_def)
      have res: "tryCopyFile e src dst w = (Raised OSError, w4)"
        unfolding tryCopyFile_def Let_def by (simp only: r1 r2 r3 r4 split_conv ex1) simp
      have tr: "trace w4 = trace w @ [CopyFileW src dst, OsReplace dst t, MoveFileEx t]"
        by (simp add: w4_def w3_def w2_def w1_def)
      have "w4 = w4\<lparr>trace := trace w @ [CopyFileW src dst, OsReplace dst t, MoveFileEx t]\<rparr>"
        using tr by simp
      then have "osRemoveCalls w4 = osRemoveCalls w"
        using norm [of "[CopyFileW src dst, OsReplace dst t, MoveFileEx t]" w4] by simp
      then show ?thesis using True False tr by (simp add: res ph)
    next
      case reg: True
      define w4 where "w4 = w3\<lparr>trace := trace w3 @ [MoveFileEx t],
                              rebootDeletes := rebootDeletes w3 @ [t]\<rparr>"
      have r4: "moveFileEx e t w3 = (True, w4)"
        using reg ex3 by (simp add: moveFileEx_unfold m3 w4_def succeedsNext_def)
      obtain ok5 w5 where r5: "copyFileW e src dst w4 = (ok5, w5)" by force
      have res: "tryCopyFile e src dst w = (if ok5 then Returned else Raised OSError, w5)"
        unfolding tryCopyFile_def Let_def by (simp only: r1 r2 r3 r4 r5 split_conv ex1) simp
      have tr4: "trace w4 = trace w @ [CopyFileW src dst, OsReplace dst t, MoveFileEx t]"
        by (simp add: w4_def w3_def w2_def w1_def)
      have f4: "map_of (files w4) = ((map_of (files w))(dst := None))(t \<mapsto> cd)"
        using f3 by (simp add: w4_def)
      have m4: "made w4 (CopyFileW src dst) = Suc (made w (CopyFileW src dst))"
        by (simp add: made_def tr4)
      have tr: "trace w5 = trace w @ [CopyFileW src dst, OsReplace dst t, MoveFileEx t,
                                       CopyFileW src dst]"
        using copyFileW_frame [OF r5] tr4 by simp
      have there5: "isfile w5 dst \<longleftrightarrow> ok5"
        using r5 dt
        by (auto simp: copyFileW_unfold isfile_def f4 update_conv'
            split: option.splits if_splits)
      have blocked: "\<not> ok5" if "e (CopyFileW src dst) (Suc (made w (CopyFileW src dst)))"
        using r5 that by (auto simp: copyFileW_unfold m4 split: option.splits if_splits)
      have free: "ok5" if a: "isfile w src" and b: "src \<noteq> dst"
        and c: "\<not> e (CopyFileW src dst) (Suc (made w (CopyFileW src dst)))"
      proof -
        obtain cs where cs: "map_of (files w) src = Some cs"
          using a by (auto simp: isfile_def)
        have "src \<noteq> t" using fr cs by auto
        then have "map_of (files w4) src = Some cs" using cs b by (simp add: f4)
        then show ?thesis using r5 c by (simp add: copyFileW_unfold m4)
      qed
      have "w5 = w5\<lparr>trace := trace w @ [CopyFileW src dst, OsReplace dst t, MoveFileEx t,
                                          CopyFileW src dst]\<rparr>"
        using tr by simp
      then have "osRemoveCalls w5 = osRemoveCalls w"
        using norm [of "[CopyFileW src dst, OsReplace dst t, MoveFileEx t, CopyFileW src dst]" w5]
        by simp
      then show ?thesis
        using True reg tr there5 blocked free by (auto simp: res ph)
    qed
  qed
qed

theorem copy_fallback_calls_witness:
  "exists_path exStore [''i'', ''b'']
   \<and> \<not> fst (copyFileW envFirstCopyFails [''i'', ''a''] [''i'', ''b''] exStore)
   \<and> trace (snd (tryCopyFile envFirstCopyFails [''i'', ''a''] [''i'', ''b''] exStore))
       = [CopyFileW [''i'', ''a''] [''i'', ''b''],
          OsReplace [''i'', ''b''] (placeholder [''i'', ''b''] exStore),
          MoveFileEx (placeholder [''i'', ''b''] exStore),
          CopyFileW [''i'', ''a''] [''i'', ''b'']]
   \<and> fst (tryCopyFile envFirstCopyFails [''i'', ''a''] [''i'', ''b''] exStore) = Returned
   \<and> osRemoveCalls (snd (tryCopyFile envFirstCopyFails [''i'', ''a''] [''i'', ''b''] exStore)) = []"
proof -
  have h1: "\<not> fst (copyFileW envFirstCopyFails [''i'', ''a''] [''i'', ''b''] exStore)"
    by (simp add: copyFileW_unfold envFirstCopyFails_def made_def exStore_def)
  have h2: "exists_path exStore [''i'', ''b'']"
    by (simp add: exists_path_def isfile_def exStore_def)
  have a: "isfile exStore [''i'', ''a'']" "isfile exStore [''i'', ''b'']"
    "[''i'', ''a''] \<noteq> [''i'', ''b'']"
    by (simp_all add: isfile_def exStore_def)
  have b: "succeedsNext envFirstCopyFails exStore (OsReplace x y)"
    "succeedsNext envFirstCopyFails exStore (MoveFileEx x)" for x y
    by (simp_all add: succeedsNext_def envFirstCopyFails_def)
  have c: "\<not> envFirstCopyFails (CopyFileW [''i'', ''a''] [''i'', ''b''])
              (Suc (made exStore (CopyFileW [''i'', ''a''] [''i'', ''b''])))"
    by (simp add: envFirstCopyFails_def)
  have m: "trace exStore = []" "osRemoveCalls exStore = []"
    by (simp_all add: osRemoveCalls_def exStore_def)
  from copy_fallback_calls [OF h1 h2] a b c m h1 h2
  show ?thesis by (auto split: if_splits)
qed

text \<open>
  C6 as stated fails: where the copy of the specification deletes the placeholder at its
  first attempt and registers nothing, \<^verbatim>\<open>tryCopyFile\<close> attempts no deletion, leaves the
  placeholder in the directory and registers it for deletion at the next restart.
\<close>

theorem copy_fallback_no_delete_counterexample:
  "osRemoveCalls (snd (tryCopyFile envFirstCopyFails [''i'', ''a''] [''i'', ''b''] exStore)) = []
   \<and> rebootDeletes (snd (tryCopyFile envFirstCopyFails [''i'', ''a''] [''i'', ''b''] exStore))
       = [[''i'', ''tmp_______'']]
   \<and> isfile (snd (tryCopyFile envFirstCopyFails [''i'', ''a''] [''i'', ''b''] exStore))
       [''i'', ''tmp_______'']
   \<and> osRemoveCalls (snd (tryCopyFile_spec envFirstCopyFails [''i'', ''a''] [''i'', ''b''] exStore))
       = [[''i'', ''tmp_______'']]
   \<and> rebootDeletes (snd (tryCopyFile_spec envFirstCopyFails [''i'', ''a''] [''i'', ''b''] exStore))
       = []
   \<and> \<not> isfile (snd (tryCopyFile_spec envFirstCopyFails [''i'', ''a''] [''i'', ''b''] exStore))
         [''i'', ''tmp_______'']"
  by (simp add: tryCopyFile_def tryCopyFile_spec_def tryRemoveFile_def store_evals exStore_def
      envFirstCopyFails_def osRemoveCalls_def eval_nat_numeral)

lemmas walk_evals =
  copyProgramFiles_def copyWalk_def listdir_def os_walk.simps relpath_def lower_def
  lower_char_def tryCopyFile_def

text \<open>
  C9. \<^verbatim>\<open>copyProgramFiles\<close> makes no copy from a file of the top of the source tree
  whose name is \<open>nvda.exe\<close> in any case, and no copy to \<open>nvda.exe\<close> in the destination:
  what is at that path after the walk is what was there before. \<^verbatim>\<open>install\<close> then copies
  \<open>nvda_UIAccess.exe\<close>, or else \<open>nvda_noUIAccess.exe\<close>, of the destination to
  \<open>nvda.exe\<close>, and raises \<^verbatim>\<open>RuntimeError\<close> when neither is there.
\<close>

theorem nvda_exe_not_copied:
  assumes run: "copyProgramFiles e sourcePath destPath w = (r, w')"
  shows "(\<forall>s d. CopyFileW s d \<in> set (trace w') \<longrightarrow>
            CopyFileW s d \<in> set (trace w)
            \<or> (d \<noteq> destPath @ [''nvda.exe'']
               \<and> (\<forall>f. lower f = ''nvda.exe'' \<longrightarrow> s \<noteq> sourcePath @ [f])))
       \<and> map_of (files w') (destPath @ [''nvda.exe'']) = map_of (files w) (destPath @ [''nvda.exe''])
       \<and> installProgramFiles e sourcePath destPath w =
           (if r \<noteq> Returned then (r, w')
            else if isfile w' (destPath @ [''nvda_UIAccess.exe''])
            then tryCopyFile e (destPath @ [''nvda_UIAccess.exe'']) (destPath @ [''nvda.exe'']) w'
            else if isfile w' (destPath @ [''nvda_noUIAccess.exe''])
            then tryCopyFile e (destPath @ [''nvda_noUIAccess.exe'']) (destPath @ [''nvda.exe'']) w'
            else (Raised RuntimeError, w'))"
proof -
  let ?q = "destPath @ [''nvda.exe'']"
  from run have cd: "copyDirs e sourcePath destPath (copyWalk w sourcePath) w = (r, w')"
    by (simp add: copyProgramFiles_def)
  note fr = copyDirs_frame [OF cd]
  have target: "destPath @ relpath (cur @ [f]) sourcePath \<noteq> ?q"
    if "(cur, sds, fs) \<in> set (copyWalk w sourcePath)"
      "\<not> (sourcePath = cur \<and> lower f = ''nvda.exe'')" for cur sds fs f
  proof
    assume eq: "destPath @ relpath (cur @ [f]) sourcePath = ?q"
    from copyWalk_prefix [OF that(1)] obtain rr where rr: "cur = sourcePath @ rr"
      by (auto simp: prefix_def)
    from eq have "rr @ [f] = [''nvda.exe'']" by (simp add: relpath_def rr)
    then have "rr = []" "f = ''nvda.exe''" by (auto simp: append_eq_Cons_conv)
    then show False using that(2) rr lower_nvda_exe by simp
  qed
  have notmp: "\<not> isTmp ?q" by (simp add: isTmp_def)
  have calls: "CopyFileW s d \<in> set (trace w)
            \<or> (d \<noteq> ?q \<and> (\<forall>f. lower f = ''nvda.exe'' \<longrightarrow> s \<noteq> sourcePath @ [f]))"
    if "CopyFileW s d \<in> set (trace w')" for s d
  proof (cases "CopyFileW s d \<in> set (trace w)")
    case True
    then show ?thesis by simp
  next
    case False
    from fr [THEN conjunct1, rule_format, OF that] False
    obtain cur sds fs f where c: "(cur, sds, fs) \<in> set (copyWalk w sourcePath)"
      "f \<in> set fs" "\<not> (sourcePath = cur \<and> lower f = ''nvda.exe'')"
      "CopyFileW s d = CopyFileW (cur @ [f]) (destPath @ relpath (cur @ [f]) sourcePath)"
      by blast
    have "d \<noteq> ?q" using target [OF c(1) c(3)] c(4) by simp
    moreover have "s \<noteq> sourcePath @ [f']" if "lower f' = ''nvda.exe''" for f'
      using c(3,4) that by auto
    ultimately show ?thesis by simp
  qed
  have files: "map_of (files w') ?q = map_of (files w) ?q"
  proof (rule fr [THEN conjunct2, rule_format])
    fix cur sds fs f
    assume "(cur, sds, fs) \<in> set (copyWalk w sourcePath)" "f \<in> set fs"
      "\<not> (sourcePath = cur \<and> lower f = ''nvda.exe'')"
    then have "?q \<noteq> destPath @ relpath (cur @ [f]) sourcePath"
      using target by metis
    then show "butlast ?q \<noteq> butlast (destPath @ relpath (cur @ [f]) sourcePath)
        \<or> (?q \<noteq> destPath @ relpath (cur @ [f]) sourcePath \<and> \<not> isTmp ?q)"
      using notmp by simp
  qed
  have inst: "installProgramFiles e sourcePath destPath w =
           (if r \<noteq> Returned then (r, w')
            else if isfile w' (destPath @ [''nvda_UIAccess.exe''])
            then tryCopyFile e (destPath @ [''nvda_UIAccess.exe'']) ?q w'
            else if isfile w' (destPath @ [''nvda_noUIAccess.exe''])
            then tryCopyFile e (destPath @ [''nvda_noUIAccess.exe'']) ?q w'
            else (Raised RuntimeError, w'))"
    unfolding installProgramFiles_def run pickNvdaExe_two
    by (cases r) simp_all
  show ?thesis using calls files inst by blast
qed

theorem nvda_exe_not_copied_witness:
  "fst (copyProgramFiles envCalm [''s''] [''d''] exCopy) = Returned
   \<and> map_of (files (snd (copyProgramFiles envCalm [''s''] [''d''] exCopy))) [''d'', ''nvda.exe'']
       = Some ''OLD''
   \<and> installProgramFiles envCalm [''s''] [''d''] exCopy
       = tryCopyFile envCalm [''d'', ''nvda_noUIAccess.exe''] [''d'', ''nvda.exe'']
           (snd (copyProgramFiles envCalm [''s''] [''d''] exCopy))"
proof -
  define W where "W = exCopy\<lparr>files := files exCopy @ [([''d'', ''nvda_noUIAccess.exe''], ''N'')],
      trace := [CopyFileW [''s'', ''nvda_noUIAccess.exe''] [''d'', ''nvda_noUIAccess.exe'']]\<rparr>"
  have run: "copyProgramFiles envCalm [''s''] [''d''] exCopy = (Returned, W)"
    unfolding W_def by (simp add: walk_evals store_evals exCopy_def envCalm_def)
  have old: "map_of (files exCopy) ([''d''] @ [''nvda.exe'']) = Some ''OLD''"
    by (simp add: exCopy_def)
  have ex: "\<not> isfile W ([''d''] @ [''nvda_UIAccess.exe''])"
    "isfile W ([''d''] @ [''nvda_noUIAccess.exe''])"
    by (simp_all add: W_def isfile_def exCopy_def)
  from nvda_exe_not_copied [OF run] old ex
  show ?thesis by (simp add: run)
qed

text \<open>
  C7, as the code has it. \<^verbatim>\<open>copyProgramFiles\<close> leaves out the directories at the top of
  the source tree that are named \<open>userconfig\<close> or \<open>systemconfig\<close> in any case: its walk
  visits no directory at or below one of them, it copies no file from below one of them,
  and it changes no file below the directory of that name in the destination.
  \<^verbatim>\<open>removeOldLibFiles\<close> keeps the library directory of the current version, in each of
  \<open>lib\<close>, \<open>lib64\<close> and \<open>libArm64\<close>: the directory stays, and every file directly in it
  is what it was.
\<close>

theorem protected_subtrees:
  assumes name: "lower x \<in> {''userconfig'', ''systemconfig''}"
    and run: "copyProgramFiles e sourcePath destPath w = (r, w')"
  shows "(\<forall>p sds fs. (p, sds, fs) \<in> set (copyWalk w sourcePath) \<longrightarrow> \<not> prefix (sourcePath @ [x]) p)
       \<and> (\<forall>s d. CopyFileW s d \<in> set (trace w') \<longrightarrow>
             CopyFileW s d \<in> set (trace w) \<or> \<not> strict_prefix (sourcePath @ [x]) s)
       \<and> (\<forall>q. strict_prefix (destPath @ [x]) q \<longrightarrow> map_of (files w') q = map_of (files w) q)
       \<and> keepsDir (libDest @ [topDir, version]) u
            (removeOldLibFiles e' libDest version rebootOK u)"
proof -
  from run have cd: "copyDirs e sourcePath destPath (copyWalk w sourcePath) w = (r, w')"
    by (simp add: copyProgramFiles_def)
  note fr = copyDirs_frame [OF cd]
  have visit: "\<not> prefix (sourcePath @ [x]) p"
    if "(p, sds, fs) \<in> set (copyWalk w sourcePath)" for p sds fs
    using that name by (rule copyWalk_skips)
  have calls: "CopyFileW s d \<in> set (trace w) \<or> \<not> strict_prefix (sourcePath @ [x]) s"
    if "CopyFileW s d \<in> set (trace w')" for s d
  proof (cases "CopyFileW s d \<in> set (trace w)")
    case True
    then show ?thesis by simp
  next
    case False
    from fr [THEN conjunct1, rule_format, OF that] False
    obtain cur sds fs f where c: "(cur, sds, fs) \<in> set (copyWalk w sourcePath)"
      "CopyFileW s d = CopyFileW (cur @ [f]) (destPath @ relpath (cur @ [f]) sourcePath)"
      by blast
    have "\<not> strict_prefix (sourcePath @ [x]) (cur @ [f])"
    proof
      assume "strict_prefix (sourcePath @ [x]) (cur @ [f])"
      then have "prefix (sourcePath @ [x]) cur"
        by (auto simp: strict_prefix_def prefix_snoc)
      then show False using visit [OF c(1)] by simp
    qed
    then show ?thesis using c(2) by simp
  qed
  have files: "map_of (files w') q = map_of (files w) q"
    if q: "strict_prefix (destPath @ [x]) q" for q
  proof (rule fr [THEN conjunct2, rule_format])
    fix cur sds fs f
    assume a: "(cur, sds, fs) \<in> set (copyWalk w sourcePath)"
    from copyWalk_prefix [OF a] obtain rr where rr: "cur = sourcePath @ rr"
      by (auto simp: prefix_def)
    from q obtain z where z: "q = destPath @ [x] @ z" "z \<noteq> []"
      by (auto simp: strict_prefix_def prefix_def)
    have bq: "butlast q = destPath @ [x] @ butlast z"
      using z by (simp add: butlast_append)
    have bd: "butlast (destPath @ relpath (cur @ [f]) sourcePath) = destPath @ rr"
      by (simp add: relpath_def rr butlast_append)
    have "butlast q \<noteq> butlast (destPath @ relpath (cur @ [f]) sourcePath)"
    proof
      assume "butlast q = butlast (destPath @ relpath (cur @ [f]) sourcePath)"
      then have "rr = [x] @ butlast z" using bq bd by simp
      then have "prefix (sourcePath @ [x]) cur" by (simp add: rr)
      then show False using visit [OF a] by simp
    qed
    then show "butlast q \<noteq> butlast (destPath @ relpath (cur @ [f]) sourcePath)
        \<or> (q \<noteq> destPath @ relpath (cur @ [f]) sourcePath \<and> \<not> isTmp q)"
      by simp
  qed
  show ?thesis
    using visit calls files removeOldLibFiles_keeps [of libDest topDir version u e' rebootOK]
    by blast
qed

theorem protected_subtrees_witness:
  "map_of (files (snd (copyProgramFiles envCalm [''s''] [''d''] exNested)))
       [''d'', ''userConfig'', ''g''] = None
   \<and> CopyFileW [''s'', ''userConfig'', ''g''] [''d'', ''userConfig'', ''g'']
       \<notin> set (trace (snd (copyProgramFiles envCalm [''s''] [''d''] exNested)))
   \<and> map_of (files (removeOldLibFiles envCalm [''d''] ''2'' True exLib))
       [''d'', ''lib'', ''2'', ''c''] = Some ''C''
   \<and> isdir (removeOldLibFiles envCalm [''d''] ''2'' True exLib) [''d'', ''lib'', ''2'']"
proof -
  let ?X = "copyProgramFiles envCalm [''s''] [''d''] exNested"
  have name: "lower ''userConfig'' \<in> {''userconfig'', ''systemconfig''}"
    by (simp add: lower_def lower_char_def)
  have run: "?X = (fst ?X, snd ?X)" by simp
  note t = protected_subtrees [OF name run, where libDest = "[''d'']" and topDir = "''lib''"
      and version = "''2''" and u = exLib and e' = envCalm and rebootOK = True]
  have under: "strict_prefix ([''s''] @ [''userConfig'']) [''s'', ''userConfig'', ''g'']"
    "strict_prefix ([''d''] @ [''userConfig'']) [''d'', ''userConfig'', ''g'']"
    by (simp_all add: strict_prefix_def)
  have was: "map_of (files exNested) [''d'', ''userConfig'', ''g''] = None"
    "trace exNested = []"
    "map_of (files exLib) ([''d'', ''lib'', ''2''] @ [''c'']) = Some ''C''"
    "isdir exLib [''d'', ''lib'', ''2'']"
    by (simp_all add: exNested_def exLib_def isdir_def)
  from t under(2) was(1)
  have a: "map_of (files (snd ?X)) [''d'', ''userConfig'', ''g''] = None" by metis
  from t under(1) was(2)
  have b: "CopyFileW [''s'', ''userConfig'', ''g''] [''d'', ''userConfig'', ''g'']
       \<notin> set (trace (snd ?X))"
    by (metis empty_iff list.set(1))
  from t have k: "keepsDir ([''d''] @ [''lib'', ''2'']) exLib
      (removeOldLibFiles envCalm [''d''] ''2'' True exLib)" by blast
  have c: "map_of (files (removeOldLibFiles envCalm [''d''] ''2'' True exLib))
       [''d'', ''lib'', ''2'', ''c''] = Some ''C''"
    using k was(3) by (simp add: keepsDir_def)
  have d: "isdir (removeOldLibFiles envCalm [''d''] ''2'' True exLib) [''d'', ''lib'', ''2'']"
    using k was(4) by (simp add: keepsDir_def)
  show ?thesis using a b c d by blast
qed

text \<open>
  C7 as stated fails: a \<open>userConfig\<close> that is not at the top of the source tree is walked
  and copied like any other directory. Of the two files of the example, the one in
  \<open>sub/userConfig\<close> is copied; the one in the \<open>userConfig\<close> at the top is not.
\<close>

theorem nested_config_copied_counterexample:
  "copyFileWCalls (snd (copyProgramFiles envCalm [''s''] [''d''] exNested))
   = [([''s'', ''sub'', ''userConfig'', ''f''], [''d'', ''sub'', ''userConfig'', ''f''])]"
  by (simp add: walk_evals store_evals copyFileWCalls_def exNested_def envCalm_def)

text \<open>
  C8, as the code has it. Let the install directory exist and the directory for temporary
  files lie outside it. When no path of the group exists, \<^verbatim>\<open>_deleteFileGroupOrFail\<close>
  returns, leaves every file as it was, and makes one call to the platform only: the
  removal of its scratch directory. When that removal succeeds the directories are as they
  were and no scratch directory is left; when it fails, the failure is ignored. In any
  group a member that does not exist is skipped.
\<close>

theorem skip_nonexistent:
  assumes root: "isdir w installDir"
    and tmp: "\<not> prefix installDir tmpRoot"
    and none: "\<forall>fp \<in> set fps. \<not> exists_path w (installDir @ fp)"
  shows "fst (deleteFileGroupOrFail e tmpRoot installDir fps numTries iv w) = Returned
       \<and> files (snd (deleteFileGroupOrFail e tmpRoot installDir fps numTries iv w)) = files w
       \<and> trace (snd (deleteFileGroupOrFail e tmpRoot installDir fps numTries iv w))
           = trace w @ [ShRmtree (scratchDir tmpRoot w)]
       \<and> (succeedsNext e w (ShRmtree (scratchDir tmpRoot w))
            \<longrightarrow> dirs (snd (deleteFileGroupOrFail e tmpRoot installDir fps numTries iv w)) = dirs w
              \<and> \<not> exists_path (snd (deleteFileGroupOrFail e tmpRoot installDir fps numTries iv w))
                    (scratchDir tmpRoot w))
       \<and> (\<forall>u D y rest. \<not> exists_path u (installDir @ y)
            \<longrightarrow> deleteGroupLoop e D installDir numTries iv (y # rest) u
              = deleteGroupLoop e D installDir numTries iv rest u)"
proof -
  define D where "D = tmpRoot @ [freshName w]"
  have D: "scratchDir tmpRoot w = D" by (simp add: scratchDir_def mkdtemp_def Let_def D_def)
  let ?w1 = "w\<lparr>dirs := dirs w @ [D]\<rparr>"
  have ne: "installDir @ fp \<noteq> D" for fp
    using scratch_apart [OF root tmp, of fp "[]"] by (simp add: D_def)
  have none1: "\<forall>fp \<in> set fps. \<not> exists_path ?w1 (installDir @ fp)"
    using none ne by (auto simp: exists_path_def isfile_def isdir_def)
  have loop: "deleteGroupLoop e D installDir numTries iv fps ?w1 = (Returned, ?w1)"
    using none1 by (rule deleteGroupLoop_skip_all)
  have res: "deleteFileGroupOrFail e tmpRoot installDir fps numTries iv w
      = (Returned, snd (sh_rmtree e D ?w1))"
    unfolding deleteFileGroupOrFail_def mkdtemp_def Let_def D_def [symmetric]
    by (simp only: split_conv loop) (simp add: split_beta)
  have keepf: "filter (\<lambda>(p, c). \<not> prefix D p) (files w) = files w"
    unfolding filter_id_conv D_def using fresh_not_under [of _ w tmpRoot] by force
  have keepd: "filter (\<lambda>p. \<not> prefix D p) (dirs w) = dirs w"
    unfolding filter_id_conv D_def using fresh_not_under [of _ w tmpRoot] by force
  have Dnew: "D \<notin> set (dirs w)"
    using fresh_dir_absent [of tmpRoot w "[]"] by (simp add: D_def)
  have fs: "files (snd (sh_rmtree e D ?w1)) = files w"
    by (simp add: sh_rmtree_unfold keepf)
  have tr: "trace (snd (sh_rmtree e D ?w1)) = trace w @ [ShRmtree D]"
    by (simp add: sh_rmtree_unfold)
  have ok: "dirs (snd (sh_rmtree e D ?w1)) = dirs w \<and> \<not> exists_path (snd (sh_rmtree e D ?w1)) D"
    if "succeedsNext e w (ShRmtree D)"
  proof -
    have d: "dirs (snd (sh_rmtree e D ?w1)) = dirs w"
      using that by (simp add: sh_rmtree_unfold succeedsNext_def keepd)
    have "map_of (files w) D = None"
      using fresh_file_absent [of w tmpRoot] by (simp add: D_def)
    then show ?thesis using d Dnew fs by (simp add: exists_path_def isfile_def isdir_def)
  qed
  show ?thesis
    unfolding res D using fs tr ok by simp
qed

theorem skip_nonexistent_witness:
  "isdir exStore [''i''] \<and> \<not> prefix [''i''] [''t'']
   \<and> fst (deleteFileGroupOrFail envCalm [''t''] [''i''] [[''x''], [''y'']] 6 500 exStore) = Returned
   \<and> files (snd (deleteFileGroupOrFail envCalm [''t''] [''i''] [[''x''], [''y'']] 6 500 exStore))
       = files exStore
   \<and> dirs (snd (deleteFileGroupOrFail envCalm [''t''] [''i''] [[''x''], [''y'']] 6 500 exStore))
       = dirs exStore
   \<and> \<not> exists_path (snd (deleteFileGroupOrFail envCalm [''t''] [''i''] [[''x''], [''y'']] 6 500 exStore))
         (scratchDir [''t''] exStore)"
proof -
  have h1: "isdir exStore [''i'']" by (simp add: isdir_def exStore_def)
  have h2: "\<not> prefix [''i''] [''t'']" by simp
  have h3: "\<forall>fp \<in> set [[''x''], [''y'']]. \<not> exists_path exStore ([''i''] @ fp)"
    by (simp add: exists_path_def isfile_def isdir_def exStore_def)
  have h4: "succeedsNext envCalm exStore c" for c
    by (simp add: succeedsNext_def envCalm_def)
  from skip_nonexistent [OF h1 h2 h3, where e = envCalm and numTries = 6 and iv = 500] h1 h2 h4
  show ?thesis by simp
qed

text \<open>
  C8 as stated fails: when the scratch directory cannot be removed, the call returns all
  the same and the scratch directory, which did not exist before, is left behind.
\<close>

theorem scratch_left_behind_counterexample:
  "fst (deleteFileGroupOrFail envKeepScratch [''t''] [''i''] [[''x''], [''y'']] 6 500 exStore)
     = Returned
   \<and> \<not> isdir exStore (scratchDir [''t''] exStore)
   \<and> isdir (snd (deleteFileGroupOrFail envKeepScratch [''t''] [''i''] [[''x''], [''y'']] 6 500 exStore))
       (scratchDir [''t''] exStore)"
  by (simp add: store_evals group_evals exStore_def envKeepScratch_def)

text \<open>
  C10. Once the fallback of \<^verbatim>\<open>tryCopyFile\<close> has renamed the destination aside and
  registered it for deletion at the next restart, the file that was at the destination
  stays under the placeholder. When the one retried copy fails, the call raises
  \<^verbatim>\<open>OSError\<close> and there is no file at the destination, neither the old one nor the new
  one; when it succeeds, the destination holds the content of the source.
\<close>

theorem copy_fallback_not_atomic:
  assumes "isfile w src" and "isfile w dst" and "src \<noteq> dst"
    and "\<not> succeedsNext e w (CopyFileW src dst)"
    and "succeedsNext e w (OsReplace dst (placeholder dst w))"
    and "succeedsNext e w (MoveFileEx (placeholder dst w))"
  shows "map_of (files (snd (tryCopyFile e src dst w))) (placeholder dst w)
           = map_of (files w) dst
       \<and> rebootDeletes (snd (tryCopyFile e src dst w)) = rebootDeletes w @ [placeholder dst w]
       \<and> (if e (CopyFileW src dst) (Suc (made w (CopyFileW src dst)))
          then fst (tryCopyFile e src dst w) = Raised OSError
             \<and> \<not> isfile (snd (tryCopyFile e src dst w)) dst
          else fst (tryCopyFile e src dst w) = Returned
             \<and> map_of (files (snd (tryCopyFile e src dst w))) dst = map_of (files w) src)"
proof -
  obtain cs cd where c: "map_of (files w) src = Some cs" "map_of (files w) dst = Some cd"
    using assms(1,2) by (auto simp: isfile_def)
  from tryCopyFile_fallback_aux [OF c assms(3) refl, of e] assms(4,5,6)
  obtain w4 where w4: "tryCopyFile e src dst w =
           (if e (CopyFileW src dst) (Suc (made w (CopyFileW src dst)))
            then (Raised OSError, w4\<lparr>trace := trace w4 @ [CopyFileW src dst]\<rparr>)
            else (Returned, w4\<lparr>trace := trace w4 @ [CopyFileW src dst],
                               files := AList.update dst cs (files w4)\<rparr>))"
      "trace w4 = trace w @ [CopyFileW src dst, OsReplace dst (placeholder dst w),
                             MoveFileEx (placeholder dst w)]"
      "rebootDeletes w4 = rebootDeletes w @ [placeholder dst w]"
      "map_of (files w4) = ((map_of (files w))(dst := None))(placeholder dst w \<mapsto> cd)"
    unfolding succeedsNext_def placeholder_def by auto
  have nt: "dst \<noteq> placeholder dst w"
    using fresh_file_absent [of w "butlast dst"] c(2) by (auto simp: placeholder_def)
  show ?thesis
    unfolding w4(1) using w4(2,3,4) c nt
    by (simp add: isfile_def update_conv')
qed

theorem copy_fallback_not_atomic_witness:
  "isfile exStore [''i'', ''a''] \<and> isfile exStore [''i'', ''b'']
   \<and> fst (tryCopyFile envNoCopy [''i'', ''a''] [''i'', ''b''] exStore) = Raised OSError
   \<and> \<not> isfile (snd (tryCopyFile envNoCopy [''i'', ''a''] [''i'', ''b''] exStore)) [''i'', ''b'']
   \<and> map_of (files (snd (tryCopyFile envNoCopy [''i'', ''a''] [''i'', ''b''] exStore)))
         (placeholder [''i'', ''b''] exStore) = Some ''B''"
proof -
  have a: "isfile exStore [''i'', ''a'']" "isfile exStore [''i'', ''b'']"
    "[''i'', ''a''] \<noteq> [''i'', ''b'']"
    by (simp_all add: isfile_def exStore_def)
  have b: "\<not> succeedsNext envNoCopy exStore (CopyFileW x y)"
    "succeedsNext envNoCopy exStore (OsReplace x y)"
    "succeedsNext envNoCopy exStore (MoveFileEx x)" for x y
    by (simp_all add: succeedsNext_def envNoCopy_def)
  have m: "map_of (files exStore) [''i'', ''b''] = Some ''B''"
    by (simp add: exStore_def)
  from copy_fallback_not_atomic [OF a b] a(1,2) m
  show ?thesis by (simp add: envNoCopy_def)
qed

end
